theory Spec2Isabelle
  imports Main
begin

section \<open>Values of the program\<close>

text \<open>
  Errors the program can raise or receive. \<open>InvalidKind\<close> is the \<open>Error\<close> thrown by the
  \<open>Order\<close> constructor, \<open>ReferenceError x\<close> is the use of an identifier \<open>x\<close> that no scope
  declares, \<open>TypeError\<close> is a property read on \<open>null\<close>, \<open>IOError e\<close> is the \<open>err\<close> object the
  \<open>fs\<close> module hands to a callback, \<open>InvalidArgValue\<close> is what the \<open>fs\<close> module throws at
  once, before it starts anything, for a path it does not accept, and \<open>UnhandledError\<close> is
  what the emitter throws for an \<open>'error'\<close> event without listener whose payload is not
  an error.
\<close>

datatype error =
    InvalidKind
  | ReferenceError string
  | TypeError
  | IOError string
  | InvalidArgValue
  | UnhandledError

text \<open>Class \<open>Order\<close>: the fields \<open>path\<close>, \<open>type\<close>, \<open>data\<close>, \<open>id\<close>.\<close>

record order =
  order_path :: string
  order_type :: string
  order_data :: string
  order_id :: string

text \<open>
  The constructor of \<open>Order\<close>. The id is the value of the \<open>Math.random\<close> expression, which
  the host supplies: it is the argument \<open>rnd\<close>. The type check follows the assignment of
  the id and throws for every string outside the five kinds.
\<close>

definition new_Order :: "string \<Rightarrow> string \<Rightarrow> string \<Rightarrow> string \<Rightarrow> error + order" where
  "new_Order rnd path type data =
     (if type \<noteq> ''read'' \<and> type \<noteq> ''write'' \<and> type \<noteq> ''delete''
         \<and> type \<noteq> ''create'' \<and> type \<noteq> ''append''
      then Inl InvalidKind
      else Inr \<lparr>order_path = path, order_type = type, order_data = data, order_id = rnd\<rparr>)"

text \<open>
  Identifiers are looked up in the bindings of the enclosing functions (their parameters);
  the module declares only \<open>fs\<close>, \<open>EventEmitter\<close> and the three classes, so a name that
  is no parameter of an enclosing function is a \<open>ReferenceError\<close>.
\<close>

fun lookup_ident :: "(string \<times> string) list \<Rightarrow> string \<Rightarrow> error + string" where
  "lookup_ident [] x = Inl (ReferenceError x)"
| "lookup_ident ((n, v) # scope) x = (if n = x then Inr v else lookup_ident scope x)"

section \<open>Class WorkingStack\<close>

text \<open>The field \<open>stack\<close> is an array of orders; every method is a function on that list.\<close>

definition getStack :: "order list \<Rightarrow> order list" where
  "getStack stack = stack"

definition getOrderById :: "string \<Rightarrow> order list \<Rightarrow> order option \<times> order list" where
  "getOrderById i stack =
     (case find (\<lambda>ord. order_id ord = i) stack of
        Some ord \<Rightarrow> (Some ord, remove1 ord stack)
      | None \<Rightarrow> (None, stack))"

definition peekOrderById :: "string \<Rightarrow> order list \<Rightarrow> order option" where
  "peekOrderById i stack = find (\<lambda>ord. order_id ord = i) stack"

definition push :: "order \<Rightarrow> order list \<Rightarrow> order list" where
  "push item stack = stack @ [item]"

definition pop :: "order list \<Rightarrow> order option \<times> order list" where
  "pop stack = (if stack = [] then (None, stack) else (Some (last stack), butlast stack))"

definition peek :: "order list \<Rightarrow> order option" where
  "peek stack = (if stack = [] then None else Some (last stack))"

definition isEmpty :: "order list \<Rightarrow> bool" where
  "isEmpty stack = (length stack = 0)"

definition size_stack :: "order list \<Rightarrow> nat" where
  "size_stack stack = length stack"

definition clear :: "order list \<Rightarrow> order list" where
  "clear stack = []"

section \<open>Class FileHandler and the host it runs on\<close>

text \<open>
  A listener is the closure \<open>read\<close> registers: it holds the id of its order and the
  \<open>resolve\<close> of its promise (promises are numbered in order of creation).
\<close>

datatype listener = Read_listener string nat

text \<open>
  The argument of an emitted event: the order, the order with the content read, the
  \<open>err\<close> of the \<open>fs\<close> module, or the object \<open>{order, error: true, err: 'Unknown order type'}\<close>
  of the default branch of \<open>executeOrder\<close>, which is no error object.
\<close>

datatype payload =
    Done order
  | Content order string
  | Failure error
  | Unknown_type order

text \<open>
  A job of the microtask queue: the \<open>then\<close> callback that deletes a path from the lock,
  or the reaction of a \<open>then(resolve).catch(reject)\<close> chain that passes the outcome of the
  inner promise to the outer one.
\<close>

datatype microtask =
    Unlock string
  | Forward nat "error + string"

text \<open>
  The closure handed to \<open>setTimeout\<close>: the one of \<open>read\<close> (its path and its promise), the
  one of \<open>write\<close>, \<open>create\<close>, \<open>delete\<close> and \<open>append\<close> (the string bindings it can see, and
  whether it logs, as the one of \<open>write\<close> does), and the one of \<open>executeOrder\<close> (the order
  and the id).
\<close>

datatype callback =
    Retry_read string nat
  | Retry_as_read "(string \<times> string) list" bool
  | Retry_execute order string

text \<open>The private function that started a call of the \<open>fs\<close> module.\<close>

datatype dispatch =
    readFilePrivate
  | writeFilePrivate
  | deleteFilePrivate
  | createFilePrivate
  | appendFilePrivate

text \<open>
  The fields of the handler (\<open>lock\<close>, the emitter's \<open>listeners\<close> and \<open>maxListeners\<close>,
  \<open>orderStack\<close>, \<open>timeout\<close>) and the state of the host: the microtask queue, the pending
  timers with the delay they were given, the started and unfinished \<open>fs\<close> calls, the
  files, the promises created by \<open>read\<close> and their outcome, the chains between them, the
  exceptions nothing caught, the console and the log of emitted events. An uncaught
  exception is recorded and the run goes on, as on a host that handles it; a host that
  ends the process instead reaches a prefix of these runs.
\<close>

record state =
  lock :: "string set"
  listeners :: "(string \<times> listener) list"
  maxListeners :: nat
  orderStack :: "order list"
  timeout :: "nat option"
  microtasks :: "microtask list"
  timers :: "(nat option \<times> callback) list"
  inflight :: "(dispatch \<times> order) list"
  files :: "string \<rightharpoonup> string"
  nextPromise :: nat
  settled :: "nat \<rightharpoonup> error + string"
  thens :: "(nat \<times> nat) list"
  uncaught :: "error list"
  console :: "string list"
  emitted :: "(string \<times> payload) list"

text \<open>
  The constructor. Its body sets the listener ceiling of the emitter and nothing else:
  the parameter \<open>timeout\<close> is not stored, so the field \<open>timeout\<close> keeps the value
  \<open>undefined\<close> of its declaration (\<open>None\<close>). The files the host starts with are \<open>fs0\<close>.
\<close>

definition FileHandler :: "nat \<Rightarrow> nat \<Rightarrow> (string \<rightharpoonup> string) \<Rightarrow> state" where
  "FileHandler maxSyncWrites timeout_ms fs0 =
     \<lparr>lock = {}, listeners = [], maxListeners = maxSyncWrites, orderStack = [],
      timeout = None, microtasks = [], timers = [], inflight = [], files = fs0,
      nextPromise = 0, settled = Map.empty, thens = [], uncaught = [], console = [],
      emitted = []\<rparr>"

definition FileHandler_default :: "(string \<rightharpoonup> string) \<Rightarrow> state" where
  "FileHandler_default fs0 = FileHandler 1000 10 fs0"

text \<open>
  The delay the host's \<open>setTimeout\<close> uses for the value it is given: a number from 1 to
  \<open>2^31 - 1\<close> is taken as it is, anything else (also \<open>undefined\<close>) becomes 1.
\<close>

definition setTimeout_delay :: "nat option \<Rightarrow> nat" where
  "setTimeout_delay d =
     (case d of None \<Rightarrow> 1 | Some n \<Rightarrow> if 1 \<le> n \<and> n \<le> 2147483647 then n else 1)"

definition listenerCount :: "string \<Rightarrow> state \<Rightarrow> nat" where
  "listenerCount ev s = length (filter (\<lambda>(n, l). n = ev) (listeners s))"

text \<open>
  Settling a promise: the first outcome stays, and the chains hanging on the promise are
  queued as microtasks. \<open>chain\<close> is \<open>inner.then(resolve).catch(reject)\<close> with the functions of
  the promise \<open>outer\<close>; the reactions of \<open>then\<close> and of \<open>catch\<close> are one job of the queue
  here.
\<close>

definition settle :: "nat \<Rightarrow> error + string \<Rightarrow> state \<Rightarrow> state" where
  "settle p r s =
     (case settled s p of
        Some r0 \<Rightarrow> s
      | None \<Rightarrow>
          s\<lparr>settled := (settled s)(p \<mapsto> r),
            microtasks := microtasks s
               @ map (\<lambda>(inner, outer). Forward outer r)
                   (filter (\<lambda>(inner, outer). inner = p) (thens s))\<rparr>)"

definition chain :: "nat \<Rightarrow> nat \<Rightarrow> state \<Rightarrow> state" where
  "chain inner outer s =
     (case settled s inner of
        None \<Rightarrow> s\<lparr>thens := thens s @ [(inner, outer)]\<rparr>
      | Some r \<Rightarrow> s\<lparr>microtasks := microtasks s @ [Forward outer r]\<rparr>)"

text \<open>
  The listener of \<open>read\<close>: \<open>if (data.order.id === order.id) resolve(data.content)\<close>. It is
  registered for \<open>'read'\<close>, whose events carry an order and a content.
\<close>

definition call_listener :: "listener \<Rightarrow> payload \<Rightarrow> state \<Rightarrow> state" where
  "call_listener l d s =
     (case l of Read_listener i p \<Rightarrow>
        (case d of
           Content ord c \<Rightarrow> if order_id ord = i then settle p (Inr c) s else s
         | Done ord \<Rightarrow> s
         | Failure e \<Rightarrow> s
         | Unknown_type ord \<Rightarrow> s))"

definition thrown_of :: "payload \<Rightarrow> error" where
  "thrown_of d = (case d of Failure e \<Rightarrow> e | Done ord \<Rightarrow> UnhandledError
                  | Content ord c \<Rightarrow> UnhandledError
                  | Unknown_type ord \<Rightarrow> UnhandledError)"

text \<open>
  \<open>emitter.emit\<close>: the listeners of the event run in the order of their registration; an
  \<open>'error'\<close> event without listener is thrown instead.
\<close>

definition emit :: "string \<Rightarrow> payload \<Rightarrow> state \<Rightarrow> state" where
  "emit ev d s =
     (let s1 = s\<lparr>emitted := emitted s @ [(ev, d)]\<rparr>;
          ls = map snd (filter (\<lambda>(n, l). n = ev) (listeners s))
      in if ev = ''error'' \<and> ls = []
         then s1\<lparr>uncaught := uncaught s1 @ [thrown_of d]\<rparr>
         else fold (\<lambda>l. call_listener l d) ls s1)"

definition dispatch_of :: "string \<Rightarrow> dispatch option" where
  "dispatch_of type =
     (if type = ''read'' then Some readFilePrivate
      else if type = ''write'' then Some writeFilePrivate
      else if type = ''delete'' then Some deleteFilePrivate
      else if type = ''create'' then Some createFilePrivate
      else if type = ''append'' then Some appendFilePrivate
      else None)"

text \<open>
  The \<open>fs\<close> module validates the path before it starts a call: a string with a NUL
  character is refused by a synchronous throw, every other string is accepted (and may
  fail later, through the callback).
\<close>

definition fs_accepts :: "string \<Rightarrow> bool" where
  "fs_accepts path = (CHR 0x00 \<notin> set path)"

text \<open>
  \<open>executeOrder\<close>. Each private function is \<open>async\<close> and calls the \<open>fs\<close> module without
  waiting. When the module accepts the path, the call is started and the function
  returns a promise that is already fulfilled, so the \<open>then\<close> that deletes the path from
  the lock is queued as a microtask at once. When the module throws, the promise of the
  function is rejected: nothing is started, the \<open>then\<close> callback never runs, the path
  stays in the lock, and the rejection is handled by nobody.
\<close>

definition executeOrder :: "string \<Rightarrow> state \<Rightarrow> state" where
  "executeOrder i s =
     (case find (\<lambda>ord. order_id ord = i) (getStack (orderStack s)) of
        None \<Rightarrow> s
      | Some found \<Rightarrow>
          (case getOrderById i (orderStack s) of
             (None, stack) \<Rightarrow> s\<lparr>orderStack := stack, uncaught := uncaught s @ [TypeError]\<rparr>
           | (Some ord, stack) \<Rightarrow>
               (let s1 = s\<lparr>orderStack := stack\<rparr> in
                if order_path ord \<in> lock s1
                then s1\<lparr>timers := timers s1 @ [(timeout s1, Retry_execute ord i)]\<rparr>
                else
                  (let s2 = s1\<lparr>lock := insert (order_path ord) (lock s1)\<rparr> in
                   case dispatch_of (order_type ord) of
                     Some f \<Rightarrow>
                       if fs_accepts (order_path ord)
                       then s2\<lparr>inflight := inflight s2 @ [(f, ord)],
                               microtasks := microtasks s2 @ [Unlock (order_path ord)]\<rparr>
                       else s2\<lparr>uncaught := uncaught s2 @ [InvalidArgValue]\<rparr>
                   | None \<Rightarrow> emit ''error'' (Unknown_type ord) s2))))"

definition orderExecution :: "order \<Rightarrow> state \<Rightarrow> state" where
  "orderExecution ord s = executeOrder (order_id ord) (s\<lparr>orderStack := push ord (orderStack s)\<rparr>)"

text \<open>
  The public operations. \<open>read\<close> returns its promise; the other four are \<open>async\<close>
  functions without \<open>await\<close>, so their promise is settled when the body returns: the
  result is \<open>Inr ()\<close> for fulfilled and \<open>Inl e\<close> for rejected with \<open>e\<close>. \<open>create\<close> and
  \<open>delete\<close> declare the single parameter \<open>path\<close>: a further argument of a call is
  dropped, and the name \<open>content\<close> in their body is looked up in a scope that binds
  \<open>path\<close> only.
\<close>

definition read :: "string \<Rightarrow> string \<Rightarrow> state \<Rightarrow> nat \<times> state" where
  "read path rnd s =
     (let p = nextPromise s; s0 = s\<lparr>nextPromise := Suc p\<rparr> in
      if listenerCount ''read'' s0 = maxListeners s0
      then (p, s0\<lparr>timers := timers s0 @ [(timeout s0, Retry_read path p)]\<rparr>)
      else
        (case new_Order rnd path ''read'' '''' of
           Inl e \<Rightarrow> (p, settle p (Inl e) s0)
         | Inr ord \<Rightarrow>
             (let s1 = orderExecution ord s0 in
              (p, s1\<lparr>listeners := listeners s1 @ [(''read'', Read_listener (order_id ord) p)]\<rparr>))))"

definition write_file :: "string \<Rightarrow> string \<Rightarrow> string \<Rightarrow> state \<Rightarrow> (error + unit) \<times> state" where
  "write_file path content rnd s =
     (if listenerCount ''write'' s = maxListeners s
      then (Inr (), s\<lparr>timers := timers s
              @ [(timeout s, Retry_as_read [(''path'', path), (''content'', content)] True)]\<rparr>)
      else
        (case new_Order rnd path ''write'' content of
           Inl e \<Rightarrow> (Inl e, s)
         | Inr ord \<Rightarrow> (Inr (), orderExecution ord s)))"

definition create :: "string \<Rightarrow> string \<Rightarrow> state \<Rightarrow> (error + unit) \<times> state" where
  "create path rnd s =
     (if listenerCount ''create'' s = maxListeners s
      then (Inr (), s\<lparr>timers := timers s
              @ [(timeout s, Retry_as_read [(''path'', path)] False)]\<rparr>)
      else
        (case lookup_ident [(''path'', path)] ''content'' of
           Inl e \<Rightarrow> (Inl e, s)
         | Inr content \<Rightarrow>
             (case new_Order rnd path ''create'' content of
                Inl e \<Rightarrow> (Inl e, s)
              | Inr ord \<Rightarrow> (Inr (), orderExecution ord s))))"

definition delete_file :: "string \<Rightarrow> string \<Rightarrow> state \<Rightarrow> (error + unit) \<times> state" where
  "delete_file path rnd s =
     (if listenerCount ''delete'' s = maxListeners s
      then (Inr (), s\<lparr>timers := timers s
              @ [(timeout s, Retry_as_read [(''path'', path)] False)]\<rparr>)
      else
        (case lookup_ident [(''path'', path)] ''content'' of
           Inl e \<Rightarrow> (Inl e, s)
         | Inr content \<Rightarrow>
             (case new_Order rnd path ''delete'' content of
                Inl e \<Rightarrow> (Inl e, s)
              | Inr ord \<Rightarrow> (Inr (), orderExecution ord s))))"

text \<open>
  \<open>append\<close> calls \<open>listenerCount()\<close> without argument: the event name is \<open>undefined\<close>, the
  key \<open>''undefined''\<close> of the emitter's table.
\<close>

definition append_file :: "string \<Rightarrow> string \<Rightarrow> string \<Rightarrow> state \<Rightarrow> (error + unit) \<times> state" where
  "append_file path content rnd s =
     (if listenerCount ''undefined'' s = maxListeners s
      then (Inr (), s\<lparr>timers := timers s
              @ [(timeout s, Retry_as_read [(''path'', path), (''content'', content)] False)]\<rparr>)
      else
        (case new_Order rnd path ''append'' content of
           Inl e \<Rightarrow> (Inl e, s)
         | Inr ord \<Rightarrow> (Inr (), orderExecution ord s)))"

text \<open>
  The body of a timer callback. In the closure of \<open>write\<close>, \<open>create\<close>, \<open>delete\<close> and
  \<open>append\<close> the call \<open>this.read(path)\<close> runs first, then the argument \<open>resolve\<close> of \<open>then\<close>
  is evaluated; a string there would be ignored by \<open>then\<close> and \<open>catch\<close>.
\<close>

definition run_callback :: "callback \<Rightarrow> string \<Rightarrow> state \<Rightarrow> state" where
  "run_callback cb rnd s =
     (case cb of
        Retry_read path outer \<Rightarrow>
          (case read path rnd s of (p, s1) \<Rightarrow> chain p outer s1)
      | Retry_as_read scope logs \<Rightarrow>
          (let s0 = (if logs then s\<lparr>console := console s @ [''retrying'']\<rparr> else s) in
           case lookup_ident scope ''path'' of
             Inl e \<Rightarrow> s0\<lparr>uncaught := uncaught s0 @ [e]\<rparr>
           | Inr path \<Rightarrow>
               (case read path rnd s0 of (p, s1) \<Rightarrow>
                  (case lookup_ident scope ''resolve'' of
                     Inl e \<Rightarrow> s1\<lparr>uncaught := uncaught s1 @ [e]\<rparr>
                   | Inr f \<Rightarrow>
                       (case lookup_ident scope ''reject'' of
                          Inl e \<Rightarrow> s1\<lparr>uncaught := uncaught s1 @ [e]\<rparr>
                        | Inr g \<Rightarrow> s1))))
      | Retry_execute ord i \<Rightarrow>
          executeOrder i (s\<lparr>orderStack := push ord (orderStack s)\<rparr>))"

definition run_microtask :: "microtask \<Rightarrow> state \<Rightarrow> state" where
  "run_microtask m s =
     (case m of
        Unlock path \<Rightarrow> s\<lparr>lock := lock s - {path}\<rparr>
      | Forward outer r \<Rightarrow> settle outer r s)"

text \<open>
  The \<open>fs\<close> module, as far as the handler uses it: what a finished call hands to its
  callback (\<open>Inl\<close> the \<open>err\<close>, \<open>Inr\<close> the data, empty unless the call reads) and the files
  it leaves. The host decides whether the call fails on its own account (\<open>fault\<close>);
  without such a fault, reading or unlinking a missing file fails with \<open>ENOENT\<close>,
  writing stores the data, appending extends the file or creates it.
\<close>

definition fs_perform ::
  "dispatch \<Rightarrow> order \<Rightarrow> string option \<Rightarrow> (string \<rightharpoonup> string)
     \<Rightarrow> (error + string) \<times> (string \<rightharpoonup> string)" where
  "fs_perform f ord fault fs =
     (case fault of
        Some e \<Rightarrow> (Inl (IOError e), fs)
      | None \<Rightarrow>
          (case f of
             readFilePrivate \<Rightarrow>
               (case fs (order_path ord) of
                  None \<Rightarrow> (Inl (IOError ''ENOENT''), fs)
                | Some c \<Rightarrow> (Inr c, fs))
           | writeFilePrivate \<Rightarrow> (Inr [], fs(order_path ord \<mapsto> order_data ord))
           | deleteFilePrivate \<Rightarrow>
               (case fs (order_path ord) of
                  None \<Rightarrow> (Inl (IOError ''ENOENT''), fs)
                | Some c \<Rightarrow> (Inr [], fs(order_path ord := None)))
           | createFilePrivate \<Rightarrow> (Inr [], fs(order_path ord \<mapsto> order_data ord))
           | appendFilePrivate \<Rightarrow>
               (Inr [], fs(order_path ord \<mapsto>
                  (case fs (order_path ord) of None \<Rightarrow> [] | Some c \<Rightarrow> c)
                    @ order_data ord))))"

text \<open>
  The callbacks the five private functions hand to the \<open>fs\<close> module:
  \<open>if (err) emit('error', err) else emit(kind, {order, ...})\<close>.
\<close>

definition fs_callback :: "dispatch \<Rightarrow> order \<Rightarrow> error + string \<Rightarrow> state \<Rightarrow> state" where
  "fs_callback f ord res s =
     (case res of
        Inl err \<Rightarrow> emit ''error'' (Failure err) s
      | Inr data \<Rightarrow>
          (case f of
             readFilePrivate \<Rightarrow> emit ''read'' (Content ord data) s
           | writeFilePrivate \<Rightarrow> emit ''write'' (Done ord) s
           | deleteFilePrivate \<Rightarrow> emit ''delete'' (Done ord) s
           | createFilePrivate \<Rightarrow> emit ''create'' (Done ord) s
           | appendFilePrivate \<Rightarrow> emit ''append'' (Done ord) s))"

section \<open>Runs of the event loop\<close>

text \<open>
  What can happen next: a caller invokes a public operation (the host supplies the random
  id), the next microtask runs, a pending timer fires, or a started \<open>fs\<close> call finishes.
  Timers and \<open>fs\<close> callbacks are tasks of the event loop: they start only when the
  microtask queue is empty. An event that cannot happen in a state gives \<open>None\<close>.
\<close>

datatype event =
    Call_read string string
  | Call_write string string string
  | Call_create string string
  | Call_delete string string
  | Call_append string string string
  | Microtask
  | Timer nat string
  | Completion nat "string option"

definition step :: "event \<Rightarrow> state \<Rightarrow> state option" where
  "step ev s =
     (case ev of
        Call_read path rnd \<Rightarrow> Some (snd (read path rnd s))
      | Call_write path content rnd \<Rightarrow> Some (snd (write_file path content rnd s))
      | Call_create path rnd \<Rightarrow> Some (snd (create path rnd s))
      | Call_delete path rnd \<Rightarrow> Some (snd (delete_file path rnd s))
      | Call_append path content rnd \<Rightarrow> Some (snd (append_file path content rnd s))
      | Microtask \<Rightarrow>
          (case microtasks s of
             [] \<Rightarrow> None
           | m # ms \<Rightarrow> Some (run_microtask m (s\<lparr>microtasks := ms\<rparr>)))
      | Timer k rnd \<Rightarrow>
          (if microtasks s = [] \<and> k < length (timers s)
           then Some (run_callback (snd (timers s ! k)) rnd
                        (s\<lparr>timers := take k (timers s) @ drop (Suc k) (timers s)\<rparr>))
           else None)
      | Completion k fault \<Rightarrow>
          (if microtasks s = [] \<and> k < length (inflight s)
           then (case inflight s ! k of (f, ord) \<Rightarrow>
                   (case fs_perform f ord fault (files s) of (res, fs') \<Rightarrow>
                      Some (fs_callback f ord res
                              (s\<lparr>inflight := take k (inflight s) @ drop (Suc k) (inflight s),
                                 files := fs'\<rparr>))))
           else None))"

fun run :: "event list \<Rightarrow> state \<Rightarrow> state option" where
  "run [] s = Some s"
| "run (ev # evs) s = (case step ev s of None \<Rightarrow> None | Some s' \<Rightarrow> run evs s')"

section \<open>Properties of the states a run passes through\<close>

definition kinds :: "string set" where
  "kinds = {''read'', ''write'', ''create'', ''delete'', ''append''}"

text \<open>The paths the queued microtasks will unlock, and the promises they will settle.\<close>

fun unlocks :: "microtask list \<Rightarrow> string list" where
  "unlocks [] = []"
| "unlocks (Unlock path # ms) = path # unlocks ms"
| "unlocks (Forward p r # ms) = unlocks ms"

fun forwards :: "microtask list \<Rightarrow> nat list" where
  "forwards [] = []"
| "forwards (Unlock path # ms) = forwards ms"
| "forwards (Forward p r # ms) = p # forwards ms"

text \<open>The orders held by pending retries of \<open>executeOrder\<close>.\<close>

fun retry_orders :: "(nat option \<times> callback) list \<Rightarrow> order list" where
  "retry_orders [] = []"
| "retry_orders ((d, Retry_execute ord i) # ts) = ord # retry_orders ts"
| "retry_orders ((d, Retry_read path p) # ts) = retry_orders ts"
| "retry_orders ((d, Retry_as_read scope logs) # ts) = retry_orders ts"

text \<open>The promises held by pending retries of \<open>read\<close>.\<close>

fun retry_promises :: "(nat option \<times> callback) list \<Rightarrow> nat list" where
  "retry_promises [] = []"
| "retry_promises ((d, Retry_read path p) # ts) = p # retry_promises ts"
| "retry_promises ((d, Retry_execute ord i) # ts) = retry_promises ts"
| "retry_promises ((d, Retry_as_read scope logs) # ts) = retry_promises ts"

fun promise_of :: "string \<times> listener \<Rightarrow> nat" where
  "promise_of (n, Read_listener i p) = p"

text \<open>Every order of the registry and of a pending retry has one of the five kinds.\<close>

definition typed :: "state \<Rightarrow> bool" where
  "typed s = (list_all (\<lambda>ord. order_type ord \<in> kinds) (orderStack s)
              \<and> list_all (\<lambda>ord. order_type ord \<in> kinds) (retry_orders (timers s)))"

text \<open>
  The paths whose unlocking microtask is queued are locked, accepted by the \<open>fs\<close> module
  and queued once; every other locked path is one the \<open>fs\<close> module refuses; the calls in
  flight are on accepted paths.
\<close>

definition lock_queued :: "state \<Rightarrow> bool" where
  "lock_queued s =
     (distinct (unlocks (microtasks s))
      \<and> list_all fs_accepts (unlocks (microtasks s))
      \<and> set (unlocks (microtasks s)) \<subseteq> lock s
      \<and> (\<forall>path \<in> lock s. fs_accepts path \<longrightarrow> path \<in> set (unlocks (microtasks s)))
      \<and> list_all (\<lambda>io. fs_accepts (order_path (snd io))) (inflight s))"

text \<open>No promise is rejected, and no queued reaction will reject one.\<close>

fun rejections :: "microtask list \<Rightarrow> error list" where
  "rejections [] = []"
| "rejections (Unlock path # ms) = rejections ms"
| "rejections (Forward p (Inl e) # ms) = e # rejections ms"
| "rejections (Forward p (Inr c) # ms) = rejections ms"

definition unrejected :: "state \<Rightarrow> bool" where
  "unrejected s = ((\<forall>p e. settled s p \<noteq> Some (Inl e)) \<and> rejections (microtasks s) = [])"

text \<open>Listeners exist for the event \<open>'read'\<close> only.\<close>

definition read_listeners_only :: "state \<Rightarrow> bool" where
  "read_listeners_only s = list_all (\<lambda>nl. fst nl = ''read'') (listeners s)"

text \<open>Promises are numbered below \<open>nextPromise\<close> wherever the state mentions them.\<close>

definition numbered :: "state \<Rightarrow> bool" where
  "numbered s =
     (list_all (\<lambda>nl. promise_of nl < nextPromise s) (listeners s)
      \<and> list_all (\<lambda>p. p < nextPromise s) (forwards (microtasks s))
      \<and> list_all (\<lambda>io. fst io < nextPromise s \<and> snd io < nextPromise s) (thens s)
      \<and> list_all (\<lambda>p. p < nextPromise s) (retry_promises (timers s))
      \<and> (\<forall>p. nextPromise s \<le> p \<longrightarrow> settled s p = None))"

definition invariant :: "state \<Rightarrow> bool" where
  "invariant s =
     (typed s \<and> lock_queued s \<and> read_listeners_only s \<and> numbered s \<and> unrejected s)"

text \<open>
  The promises from \<open>n\<close> on are out of reach of every notification: the listener
  ceiling is met, no listener and no queued reaction settles one of them, and a chain
  into one of them starts at one of them.
\<close>

definition starved :: "nat \<Rightarrow> state \<Rightarrow> bool" where
  "starved n s =
     (listenerCount ''read'' s = maxListeners s
      \<and> list_all (\<lambda>nl. promise_of nl < n) (listeners s)
      \<and> list_all (\<lambda>p. p < n) (forwards (microtasks s))
      \<and> list_all (\<lambda>io. n \<le> snd io \<longrightarrow> n \<le> fst io) (thens s)
      \<and> (\<forall>p. n \<le> p \<longrightarrow> settled s p = None)
      \<and> n \<le> nextPromise s)"

text \<open>
  What a later state keeps of an earlier one: the registered listeners, in their order,
  the configuration, and the outcome of every settled promise.
\<close>

definition extends :: "state \<Rightarrow> state \<Rightarrow> bool" where
  "extends s s' =
     ((\<exists>ls. listeners s' = listeners s @ ls)
      \<and> maxListeners s' = maxListeners s
      \<and> timeout s' = timeout s
      \<and> (\<forall>p r. settled s p = Some r \<longrightarrow> settled s' p = Some r))"

lemmas invariant_defs =
  invariant_def typed_def lock_queued_def read_listeners_only_def numbered_def unrejected_def

section \<open>The Order constructor\<close>

lemma new_Order_valid:
  "type \<in> kinds \<Longrightarrow>
   new_Order rnd path type data =
     Inr \<lparr>order_path = path, order_type = type, order_data = data, order_id = rnd\<rparr>"
  by (auto simp: new_Order_def kinds_def)

lemma new_Order_invalid:
  "type \<notin> kinds \<Longrightarrow> new_Order rnd path type data = Inl InvalidKind"
  by (simp add: new_Order_def kinds_def)

section \<open>What each function leaves unchanged\<close>

lemma unlocks_append: "unlocks (ms @ ns) = unlocks ms @ unlocks ns"
  by (induction ms rule: unlocks.induct) simp_all

lemma forwards_append: "forwards (ms @ ns) = forwards ms @ forwards ns"
  by (induction ms rule: forwards.induct) simp_all

lemma retry_orders_append: "retry_orders (ts @ us) = retry_orders ts @ retry_orders us"
  by (induction ts rule: retry_orders.induct) simp_all

lemma rejections_append: "rejections (ms @ ns) = rejections ms @ rejections ns"
  by (induction ms rule: rejections.induct) simp_all

lemma rejections_map_Forward:
  "rejections (map (\<lambda>(inner, outer). Forward outer (Inr c)) xs) = []"
  by (induction xs) auto

lemma set_remove_nth: "set (take k xs @ drop (Suc k) xs) \<subseteq> set xs"
  by (auto dest: in_set_takeD in_set_dropD)

lemma unlocks_map_Forward: "unlocks (map (\<lambda>(inner, outer). Forward outer r) xs) = []"
  by (induction xs) auto

lemma forwards_map_Forward: "forwards (map (\<lambda>(inner, outer). Forward outer r) xs) = map snd xs"
  by (induction xs) auto

lemma settle_frame:
  "lock (settle p r s) = lock s"
  "listeners (settle p r s) = listeners s"
  "maxListeners (settle p r s) = maxListeners s"
  "orderStack (settle p r s) = orderStack s"
  "timeout (settle p r s) = timeout s"
  "timers (settle p r s) = timers s"
  "inflight (settle p r s) = inflight s"
  "files (settle p r s) = files s"
  "nextPromise (settle p r s) = nextPromise s"
  "thens (settle p r s) = thens s"
  "uncaught (settle p r s) = uncaught s"
  "console (settle p r s) = console s"
  "emitted (settle p r s) = emitted s"
  "unlocks (microtasks (settle p r s)) = unlocks (microtasks s)"
  by (simp_all add: settle_def unlocks_append unlocks_map_Forward split: option.splits)

lemma call_listener_frame:
  "lock (call_listener l d s) = lock s"
  "listeners (call_listener l d s) = listeners s"
  "maxListeners (call_listener l d s) = maxListeners s"
  "orderStack (call_listener l d s) = orderStack s"
  "timeout (call_listener l d s) = timeout s"
  "timers (call_listener l d s) = timers s"
  "inflight (call_listener l d s) = inflight s"
  "files (call_listener l d s) = files s"
  "nextPromise (call_listener l d s) = nextPromise s"
  "thens (call_listener l d s) = thens s"
  "uncaught (call_listener l d s) = uncaught s"
  "console (call_listener l d s) = console s"
  "emitted (call_listener l d s) = emitted s"
  "unlocks (microtasks (call_listener l d s)) = unlocks (microtasks s)"
  by (simp_all add: call_listener_def settle_frame split: listener.splits payload.splits)

lemma notify_frame:
  "lock (fold (\<lambda>l. call_listener l d) ls s) = lock s"
  "listeners (fold (\<lambda>l. call_listener l d) ls s) = listeners s"
  "maxListeners (fold (\<lambda>l. call_listener l d) ls s) = maxListeners s"
  "orderStack (fold (\<lambda>l. call_listener l d) ls s) = orderStack s"
  "timeout (fold (\<lambda>l. call_listener l d) ls s) = timeout s"
  "timers (fold (\<lambda>l. call_listener l d) ls s) = timers s"
  "inflight (fold (\<lambda>l. call_listener l d) ls s) = inflight s"
  "files (fold (\<lambda>l. call_listener l d) ls s) = files s"
  "nextPromise (fold (\<lambda>l. call_listener l d) ls s) = nextPromise s"
  "thens (fold (\<lambda>l. call_listener l d) ls s) = thens s"
  "uncaught (fold (\<lambda>l. call_listener l d) ls s) = uncaught s"
  "console (fold (\<lambda>l. call_listener l d) ls s) = console s"
  "emitted (fold (\<lambda>l. call_listener l d) ls s) = emitted s"
  "unlocks (microtasks (fold (\<lambda>l. call_listener l d) ls s)) = unlocks (microtasks s)"
  by (induction ls arbitrary: s) (simp_all add: call_listener_frame)

lemma emit_frame:
  "lock (emit ev d s) = lock s"
  "listeners (emit ev d s) = listeners s"
  "maxListeners (emit ev d s) = maxListeners s"
  "orderStack (emit ev d s) = orderStack s"
  "timeout (emit ev d s) = timeout s"
  "timers (emit ev d s) = timers s"
  "inflight (emit ev d s) = inflight s"
  "files (emit ev d s) = files s"
  "nextPromise (emit ev d s) = nextPromise s"
  "thens (emit ev d s) = thens s"
  "console (emit ev d s) = console s"
  "unlocks (microtasks (emit ev d s)) = unlocks (microtasks s)"
  by (simp_all add: emit_def Let_def notify_frame)

lemma find_remove1:
  "find P xs = Some x \<Longrightarrow> x \<in> set xs \<and> P x"
  by (induction xs) (auto split: if_splits)

lemma executeOrder_eq:
  "executeOrder i s =
     (case find (\<lambda>ord. order_id ord = i) (orderStack s) of
        None \<Rightarrow> s
      | Some ord \<Rightarrow>
          if order_path ord \<in> lock s
          then s\<lparr>orderStack := remove1 ord (orderStack s),
                 timers := timers s @ [(timeout s, Retry_execute ord i)]\<rparr>
          else (case dispatch_of (order_type ord) of
                  Some f \<Rightarrow>
                    if fs_accepts (order_path ord)
                    then s\<lparr>orderStack := remove1 ord (orderStack s),
                           lock := insert (order_path ord) (lock s),
                           inflight := inflight s @ [(f, ord)],
                           microtasks := microtasks s @ [Unlock (order_path ord)]\<rparr>
                    else s\<lparr>orderStack := remove1 ord (orderStack s),
                           lock := insert (order_path ord) (lock s),
                           uncaught := uncaught s @ [InvalidArgValue]\<rparr>
                | None \<Rightarrow>
                    emit ''error'' (Unknown_type ord)
                      (s\<lparr>orderStack := remove1 ord (orderStack s),
                         lock := insert (order_path ord) (lock s)\<rparr>)))"
  by (simp add: executeOrder_def getOrderById_def getStack_def Let_def split: option.splits)

lemma dispatch_of_kinds: "type \<in> kinds \<Longrightarrow> dispatch_of type \<noteq> None"
  by (auto simp: dispatch_of_def kinds_def)

section \<open>The invariant holds along every run\<close>

lemma retry_promises_append: "retry_promises (ts @ us) = retry_promises ts @ retry_promises us"
  by (induction ts rule: retry_promises.induct) simp_all

lemma settle_queue:
  "set (forwards (microtasks (settle p r s))) \<subseteq> set (forwards (microtasks s)) \<union> snd ` set (thens s)"
  by (auto simp: settle_def forwards_append forwards_map_Forward split: option.splits)

lemma settle_settled:
  "settled (settle p r s) q = (if q = p \<and> settled s p = None then Some r else settled s q)"
  by (simp add: settle_def split: option.splits)

lemma settle_rejections:
  "rejections (microtasks (settle p (Inr c) s)) = rejections (microtasks s)"
  by (simp add: settle_def rejections_append rejections_map_Forward split: option.splits)

lemma settle_invariant:
  assumes "invariant s" and "p < nextPromise s"
  shows "invariant (settle p (Inr c) s)"
proof -
  have "set (forwards (microtasks (settle p (Inr c) s)))
          \<subseteq> set (forwards (microtasks s)) \<union> snd ` set (thens s)"
    by (rule settle_queue)
  with assms show ?thesis
    unfolding invariant_defs
    by (simp add: settle_frame settle_settled settle_rejections list_all_iff) fastforce
qed

lemma call_listener_invariant:
  assumes "invariant s" and "promise_of (n, l) < nextPromise s"
  shows "invariant (call_listener l d s)"
  using assms
  by (cases l; cases d) (simp_all add: call_listener_def settle_invariant)

lemma notify_invariant:
  assumes "invariant s" and "list_all (\<lambda>l. promise_of (n, l) < nextPromise s) ls"
  shows "invariant (fold (\<lambda>l. call_listener l d) ls s)"
  using assms
proof (induction ls arbitrary: s)
  case Nil
  then show ?case by simp
next
  case (Cons l ls)
  have "invariant (call_listener l d s)"
    using Cons.prems call_listener_invariant [of s n l d] by simp
  moreover have "list_all (\<lambda>x. promise_of (n, x) < nextPromise (call_listener l d s)) ls"
    using Cons.prems by (simp add: call_listener_frame)
  ultimately show ?case
    by (simp add: Cons.IH)
qed


lemma listeners_numbered:
  "numbered s \<Longrightarrow>
   list_all (\<lambda>l. promise_of (ev, l) < nextPromise s)
     (map snd (filter (\<lambda>(n, l). n = ev) (listeners s)))"
  by (auto simp: numbered_def list_all_iff)

lemma emit_invariant:
  assumes "invariant s"
  shows "invariant (emit ev d s)"
proof -
  let ?s1 = "s\<lparr>emitted := emitted s @ [(ev, d)]\<rparr>"
  have inv1: "invariant ?s1"
    using assms
    by (simp add: invariant_defs)
  have inv2: "invariant (?s1\<lparr>uncaught := uncaught ?s1 @ [thrown_of d]\<rparr>)"
    using assms
    by (simp add: invariant_defs)
  have "list_all (\<lambda>l. promise_of (ev, l) < nextPromise ?s1)
          (map snd (filter (\<lambda>(n, l). n = ev) (listeners s)))"
    using assms listeners_numbered [of s ev] by (simp add: invariant_def)
  then have "invariant (fold (\<lambda>l. call_listener l d)
                (map snd (filter (\<lambda>(n, l). n = ev) (listeners s))) ?s1)"
    using inv1 notify_invariant by blast
  with inv2 show ?thesis
    by (auto simp: emit_def Let_def)
qed

lemma typed_executeOrder:
  assumes "typed s"
  shows "executeOrder i s =
     (case find (\<lambda>ord. order_id ord = i) (orderStack s) of
        None \<Rightarrow> s
      | Some ord \<Rightarrow>
          if order_path ord \<in> lock s
          then s\<lparr>orderStack := remove1 ord (orderStack s),
                 timers := timers s @ [(timeout s, Retry_execute ord i)]\<rparr>
          else if fs_accepts (order_path ord)
          then s\<lparr>orderStack := remove1 ord (orderStack s),
                 lock := insert (order_path ord) (lock s),
                 inflight := inflight s @ [(the (dispatch_of (order_type ord)), ord)],
                 microtasks := microtasks s @ [Unlock (order_path ord)]\<rparr>
          else s\<lparr>orderStack := remove1 ord (orderStack s),
                 lock := insert (order_path ord) (lock s),
                 uncaught := uncaught s @ [InvalidArgValue]\<rparr>)"
proof (cases "find (\<lambda>ord. order_id ord = i) (orderStack s)")
  case None
  then show ?thesis by (simp add: executeOrder_eq)
next
  case (Some ord)
  then have "ord \<in> set (orderStack s)"
    by (simp add: find_remove1)
  with assms have "order_type ord \<in> kinds"
    by (simp add: typed_def list_all_iff)
  then obtain f where "dispatch_of (order_type ord) = Some f"
    using dispatch_of_kinds by blast
  with Some show ?thesis by (simp add: executeOrder_eq)
qed

lemma executeOrder_invariant:
  assumes "invariant s"
  shows "invariant (executeOrder i s)"
proof (cases "find (\<lambda>ord. order_id ord = i) (orderStack s)")
  case None
  with assms show ?thesis by (simp add: typed_executeOrder invariant_def)
next
  case (Some ord)
  then have mem: "ord \<in> set (orderStack s)"
    by (simp add: find_remove1)
  have sub: "set (remove1 ord (orderStack s)) \<subseteq> set (orderStack s)"
    by (rule set_remove1_subset)
  from assms have ty: "typed s" by (simp add: invariant_def)
  show ?thesis
    using assms Some mem sub
    unfolding typed_executeOrder [OF ty]
    by (auto simp: invariant_defs
          list_all_iff unlocks_append forwards_append retry_orders_append retry_promises_append
          rejections_append)
qed

lemma orderExecution_invariant:
  assumes "invariant s" and "order_type ord \<in> kinds"
  shows "invariant (orderExecution ord s)"
proof -
  have "invariant (s\<lparr>orderStack := push ord (orderStack s)\<rparr>)"
    using assms
    by (simp add: invariant_defs
          push_def)
  then show ?thesis
    by (simp add: orderExecution_def executeOrder_invariant)
qed

lemma executeOrder_frame:
  "listeners (executeOrder i s) = listeners s"
  "maxListeners (executeOrder i s) = maxListeners s"
  "timeout (executeOrder i s) = timeout s"
  "files (executeOrder i s) = files s"
  "nextPromise (executeOrder i s) = nextPromise s"
  "thens (executeOrder i s) = thens s"
  "console (executeOrder i s) = console s"
  by (simp_all add: executeOrder_eq emit_frame split: option.splits)

lemma orderExecution_frame:
  "listeners (orderExecution ord s) = listeners s"
  "maxListeners (orderExecution ord s) = maxListeners s"
  "timeout (orderExecution ord s) = timeout s"
  "files (orderExecution ord s) = files s"
  "nextPromise (orderExecution ord s) = nextPromise s"
  "thens (orderExecution ord s) = thens s"
  "console (orderExecution ord s) = console s"
  by (simp_all add: orderExecution_def executeOrder_frame)

lemma invariant_nextPromise:
  assumes "invariant s"
  shows "invariant (s\<lparr>nextPromise := Suc (nextPromise s)\<rparr>)"
  using assms
  by (auto simp: invariant_defs
        list_all_iff less_Suc_eq)

lemma invariant_timer:
  assumes "invariant s" and "retry_orders [(d, cb)] = []"
    and "list_all (\<lambda>p. p < nextPromise s) (retry_promises [(d, cb)])"
  shows "invariant (s\<lparr>timers := timers s @ [(d, cb)]\<rparr>)"
  using assms
  by (simp add: invariant_defs
        retry_orders_append retry_promises_append)

lemma invariant_listener:
  assumes "invariant s" and "p < nextPromise s"
  shows "invariant (s\<lparr>listeners := listeners s @ [(''read'', Read_listener i p)]\<rparr>)"
  using assms
  by (simp add: invariant_defs)

lemma read_invariant:
  assumes "invariant s"
  shows "invariant (snd (read path rnd s))"
proof -
  let ?s0 = "s\<lparr>nextPromise := Suc (nextPromise s)\<rparr>"
  have inv0: "invariant ?s0"
    using assms by (rule invariant_nextPromise)
  have ord: "new_Order rnd path ''read'' [] =
      Inr \<lparr>order_path = path, order_type = ''read'', order_data = [], order_id = rnd\<rparr>"
    by (simp add: new_Order_def)
  let ?ord = "\<lparr>order_path = path, order_type = ''read'', order_data = [], order_id = rnd\<rparr>"
  have "invariant (?s0\<lparr>timers := timers ?s0 @ [(timeout ?s0, Retry_read path (nextPromise s))]\<rparr>)"
    using inv0 by (rule invariant_timer) simp_all
  moreover have "invariant (orderExecution ?ord ?s0)"
    using inv0 by (rule orderExecution_invariant) (simp add: kinds_def)
  then have "invariant ((orderExecution ?ord ?s0)
      \<lparr>listeners := listeners (orderExecution ?ord ?s0) @ [(''read'', Read_listener rnd (nextPromise s))]\<rparr>)"
    by (rule invariant_listener) (simp add: orderExecution_frame)
  ultimately show ?thesis
    by (simp add: read_def Let_def ord)
qed

lemma write_file_invariant:
  assumes "invariant s"
  shows "invariant (snd (write_file path content rnd s))"
proof -
  have "invariant (s\<lparr>timers := timers s
      @ [(timeout s, Retry_as_read [(''path'', path), (''content'', content)] True)]\<rparr>)"
    using assms by (rule invariant_timer) simp_all
  moreover have "invariant (orderExecution
      \<lparr>order_path = path, order_type = ''write'', order_data = content, order_id = rnd\<rparr> s)"
    using assms by (rule orderExecution_invariant) (simp add: kinds_def)
  ultimately show ?thesis
    by (simp add: write_file_def new_Order_def)
qed

lemma append_file_invariant:
  assumes "invariant s"
  shows "invariant (snd (append_file path content rnd s))"
proof -
  have "invariant (s\<lparr>timers := timers s
      @ [(timeout s, Retry_as_read [(''path'', path), (''content'', content)] False)]\<rparr>)"
    using assms by (rule invariant_timer) simp_all
  moreover have "invariant (orderExecution
      \<lparr>order_path = path, order_type = ''append'', order_data = content, order_id = rnd\<rparr> s)"
    using assms by (rule orderExecution_invariant) (simp add: kinds_def)
  ultimately show ?thesis
    by (simp add: append_file_def new_Order_def)
qed

lemma create_invariant:
  assumes "invariant s"
  shows "invariant (snd (create path rnd s))"
proof -
  have "invariant (s\<lparr>timers := timers s @ [(timeout s, Retry_as_read [(''path'', path)] False)]\<rparr>)"
    using assms by (rule invariant_timer) simp_all
  with assms show ?thesis
    by (simp add: create_def)
qed

lemma delete_file_invariant:
  assumes "invariant s"
  shows "invariant (snd (delete_file path rnd s))"
proof -
  have "invariant (s\<lparr>timers := timers s @ [(timeout s, Retry_as_read [(''path'', path)] False)]\<rparr>)"
    using assms by (rule invariant_timer) simp_all
  with assms show ?thesis
    by (simp add: delete_file_def)
qed

lemma retry_orders_mem:
  "(d, Retry_execute ord i) \<in> set ts \<Longrightarrow> ord \<in> set (retry_orders ts)"
  by (induction ts rule: retry_orders.induct) auto

lemma retry_promises_mem:
  "(d, Retry_read path p) \<in> set ts \<Longrightarrow> p \<in> set (retry_promises ts)"
  by (induction ts rule: retry_promises.induct) auto

lemma retry_orders_remove:
  assumes "k < length ts"
  shows "set (retry_orders (take k ts @ drop (Suc k) ts)) \<subseteq> set (retry_orders ts)"
proof -
  have "ts = take k ts @ [ts ! k] @ drop (Suc k) ts"
    using assms by (simp add: id_take_nth_drop)
  then have "retry_orders ts
      = retry_orders (take k ts) @ retry_orders [ts ! k] @ retry_orders (drop (Suc k) ts)"
    by (metis retry_orders_append)
  then show ?thesis
    by (auto simp: retry_orders_append)
qed

lemma retry_promises_remove:
  assumes "k < length ts"
  shows "set (retry_promises (take k ts @ drop (Suc k) ts)) \<subseteq> set (retry_promises ts)"
proof -
  have "ts = take k ts @ [ts ! k] @ drop (Suc k) ts"
    using assms by (simp add: id_take_nth_drop)
  then have "retry_promises ts
      = retry_promises (take k ts) @ retry_promises [ts ! k] @ retry_promises (drop (Suc k) ts)"
    by (metis retry_promises_append)
  then show ?thesis
    by (auto simp: retry_promises_append)
qed

lemma invariant_timer_removed:
  assumes "invariant s" and "k < length (timers s)"
  shows "invariant (s\<lparr>timers := take k (timers s) @ drop (Suc k) (timers s)\<rparr>)"
  using assms retry_orders_remove [of k "timers s"] retry_promises_remove [of k "timers s"]
  by (auto simp: invariant_defs
        list_all_iff)

lemma read_promise:
  "fst (read path rnd s) = nextPromise s"
  "nextPromise (snd (read path rnd s)) = Suc (nextPromise s)"
  by (simp_all add: read_def Let_def new_Order_def orderExecution_frame)

lemma chain_invariant:
  assumes "invariant s" and "p < nextPromise s" and "outer < nextPromise s"
  shows "invariant (chain p outer s)"
proof (cases "settled s p")
  case None
  with assms show ?thesis
    by (simp add: chain_def invariant_defs)
next
  case (Some r)
  with assms(1) obtain c where "r = Inr c"
    by (cases r) (simp_all add: invariant_defs)
  with Some assms show ?thesis
    by (simp add: chain_def invariant_defs unlocks_append forwards_append rejections_append)
qed

lemma invariant_uncaught:
  "invariant (s\<lparr>uncaught := u\<rparr>) = invariant s"
  by (simp add: invariant_defs)

lemma invariant_console:
  "invariant (s\<lparr>console := c\<rparr>) = invariant s"
  by (simp add: invariant_defs)

lemma run_callback_invariant:
  assumes "invariant s"
    and "\<And>ord i. cb = Retry_execute ord i \<Longrightarrow> order_type ord \<in> kinds"
    and "\<And>path p. cb = Retry_read path p \<Longrightarrow> p < nextPromise s"
  shows "invariant (run_callback cb rnd s)"
proof (cases cb)
  case (Retry_read path outer)
  have "invariant (snd (read path rnd s))"
    using assms(1) by (rule read_invariant)
  then have "invariant (chain (fst (read path rnd s)) outer (snd (read path rnd s)))"
    using assms(3) [OF Retry_read] by (intro chain_invariant) (simp_all add: read_promise)
  then show ?thesis
    using Retry_read by (simp add: run_callback_def split_beta)
next
  case (Retry_as_read scope logs)
  have "invariant (snd (read path rnd (s\<lparr>console := c\<rparr>)))" for path c
    using assms(1) by (intro read_invariant) (simp add: invariant_console)
  moreover have "invariant (snd (read path rnd s))" for path
    using assms(1) by (rule read_invariant)
  ultimately show ?thesis
    using Retry_as_read assms(1)
    by (simp add: run_callback_def split_beta Let_def invariant_uncaught invariant_console
          split: sum.splits)
next
  case (Retry_execute ord i)
  have "invariant (s\<lparr>orderStack := push ord (orderStack s)\<rparr>)"
    using assms(1) assms(2) [OF Retry_execute]
    by (simp add: invariant_defs
          push_def)
  then show ?thesis
    using Retry_execute by (simp add: run_callback_def executeOrder_invariant)
qed

lemma run_microtask_invariant:
  assumes "invariant s" and "microtasks s = m # ms"
  shows "invariant (run_microtask m (s\<lparr>microtasks := ms\<rparr>))"
proof (cases m)
  case (Unlock path)
  with assms show ?thesis
    by (auto simp: run_microtask_def invariant_defs)
next
  case (Forward outer r)
  with assms obtain c where r: "r = Inr c"
    by (cases r) (simp_all add: invariant_defs)
  with Forward assms have "invariant (s\<lparr>microtasks := ms\<rparr>)" and "outer < nextPromise s"
    by (auto simp: invariant_defs)
  then show ?thesis
    using Forward r by (simp add: run_microtask_def settle_invariant)
qed

lemma fs_callback_invariant:
  assumes "invariant s"
  shows "invariant (fs_callback f ord res s)"
  using assms
  by (simp add: fs_callback_def emit_invariant split: sum.splits dispatch.splits)

lemma step_invariant:
  assumes "invariant s" and "step ev s = Some s'"
  shows "invariant s'"
proof (cases ev)
  case (Call_read path rnd)
  with assms show ?thesis by (auto simp: step_def read_invariant)
next
  case (Call_write path content rnd)
  with assms show ?thesis by (auto simp: step_def write_file_invariant)
next
  case (Call_create path rnd)
  with assms show ?thesis by (auto simp: step_def create_invariant)
next
  case (Call_delete path rnd)
  with assms show ?thesis by (auto simp: step_def delete_file_invariant)
next
  case (Call_append path content rnd)
  with assms show ?thesis by (auto simp: step_def append_file_invariant)
next
  case Microtask
  with assms show ?thesis
    by (auto simp: step_def run_microtask_invariant split: list.splits)
next
  case (Timer k rnd)
  with assms have k: "k < length (timers s)"
    and s': "s' = run_callback (snd (timers s ! k)) rnd
        (s\<lparr>timers := take k (timers s) @ drop (Suc k) (timers s)\<rparr>)"
    by (auto simp: step_def split: if_splits)
  have mem: "timers s ! k \<in> set (timers s)"
    using k by simp
  have "invariant (s\<lparr>timers := take k (timers s) @ drop (Suc k) (timers s)\<rparr>)"
    using assms(1) k by (rule invariant_timer_removed)
  moreover have "order_type ord \<in> kinds" if "snd (timers s ! k) = Retry_execute ord i" for ord i
  proof -
    have "(fst (timers s ! k), Retry_execute ord i) \<in> set (timers s)"
      using mem that by (metis prod.collapse)
    then have "ord \<in> set (retry_orders (timers s))"
      by (rule retry_orders_mem)
    with assms(1) show ?thesis
      by (simp add: invariant_def typed_def list_all_iff)
  qed
  moreover have "p < nextPromise s" if "snd (timers s ! k) = Retry_read path p" for path p
  proof -
    have "(fst (timers s ! k), Retry_read path p) \<in> set (timers s)"
      using mem that by (metis prod.collapse)
    then have "p \<in> set (retry_promises (timers s))"
      by (rule retry_promises_mem)
    with assms(1) show ?thesis
      by (simp add: invariant_def numbered_def list_all_iff)
  qed
  ultimately show ?thesis
    unfolding s' by (intro run_callback_invariant) simp_all
next
  case (Completion k fault)
  have "invariant (s\<lparr>inflight := take k (inflight s) @ drop (Suc k) (inflight s), files := b\<rparr>)"
    for b
    using assms(1) set_remove_nth [of k "inflight s"]
    by (auto simp: invariant_defs list_all_iff)
  with assms Completion show ?thesis
    by (auto simp: step_def fs_callback_invariant split: if_splits prod.splits)
qed

lemma run_invariant:
  "invariant s \<Longrightarrow> run evs s = Some s' \<Longrightarrow> invariant s'"
proof (induction evs arbitrary: s)
  case Nil
  then show ?case by simp
next
  case (Cons ev evs)
  then show ?case
    by (auto split: option.splits dest: step_invariant)
qed

lemma FileHandler_invariant: "invariant (FileHandler m t fs0)"
  by (simp add: FileHandler_def invariant_defs)

section \<open>Evaluating the model\<close>

lemmas model_defs =
  step_def read_def write_file_def create_def delete_file_def append_file_def
  orderExecution_def executeOrder_def getOrderById_def getStack_def push_def
  run_callback_def run_microtask_def fs_callback_def fs_perform_def emit_def
  call_listener_def settle_def chain_def listenerCount_def new_Order_def dispatch_of_def
  FileHandler_def FileHandler_default_def thrown_of_def fs_accepts_def Let_def

section \<open>Order construction and the kinds of the queued orders\<close>

text \<open>
  C7. The constructor of \<open>Order\<close> succeeds for each of the five kinds and fails with
  \<open>InvalidKind\<close> for every other kind string. An order of another kind is therefore never
  pushed: in every state a run of the handler reaches, the orders of the registry and the
  orders that pending retries will push back have one of the five kinds.
\<close>

theorem Order_kinds:
  "(type \<in> kinds \<longrightarrow>
      new_Order rnd path type data =
        Inr \<lparr>order_path = path, order_type = type, order_data = data, order_id = rnd\<rparr>)
   \<and> (type \<notin> kinds \<longrightarrow> new_Order rnd path type data = Inl InvalidKind)
   \<and> (run evs (FileHandler m t fs0) = Some s \<longrightarrow>
        list_all (\<lambda>ord. order_type ord \<in> kinds) (orderStack s)
        \<and> list_all (\<lambda>ord. order_type ord \<in> kinds) (retry_orders (timers s)))"
proof -
  have "invariant s" if "run evs (FileHandler m t fs0) = Some s"
    using FileHandler_invariant that by (rule run_invariant)
  then show ?thesis
    by (simp add: new_Order_valid new_Order_invalid invariant_def typed_def)
qed

theorem Order_kinds_witness:
  "''read'' \<in> kinds
   \<and> new_Order ''r1'' ''p'' ''read'' [] =
        Inr \<lparr>order_path = ''p'', order_type = ''read'', order_data = [], order_id = ''r1''\<rparr>
   \<and> ''rename'' \<notin> kinds
   \<and> new_Order ''r1'' ''p'' ''rename'' [] = Inl InvalidKind
   \<and> map_option (\<lambda>s. map order_type (retry_orders (timers s)))
        (run [Call_write ''p'' ''hello'' ''w1'', Call_read ''p'' ''r1'']
           (FileHandler 1000 10 Map.empty)) = Some [''read'']
   \<and> list_all (\<lambda>ord. order_type ord \<in> kinds)
        (retry_orders (timers (the (run [Call_write ''p'' ''hello'' ''w1'', Call_read ''p'' ''r1'']
           (FileHandler 1000 10 Map.empty)))))"
proof -
  have k: "''read'' \<in> kinds" "''rename'' \<notin> kinds"
    by (simp_all add: kinds_def)
  have r: "run [Call_write ''p'' ''hello'' ''w1'', Call_read ''p'' ''r1'']
      (FileHandler 1000 10 Map.empty)
    = Some (the (run [Call_write ''p'' ''hello'' ''w1'', Call_read ''p'' ''r1'']
      (FileHandler 1000 10 Map.empty)))"
    by (simp add: model_defs)
  have e: "map_option (\<lambda>s. map order_type (retry_orders (timers s)))
        (run [Call_write ''p'' ''hello'' ''w1'', Call_read ''p'' ''r1'']
           (FileHandler 1000 10 Map.empty)) = Some [''read'']"
    by (simp add: model_defs)
  show ?thesis
    using k e
      Order_kinds [of "''read''" "''r1''" "''p''" "[]"
        "[Call_write ''p'' ''hello'' ''w1'', Call_read ''p'' ''r1'']" 1000 10 Map.empty
        "the (run [Call_write ''p'' ''hello'' ''w1'', Call_read ''p'' ''r1'']
           (FileHandler 1000 10 Map.empty))"]
      Order_kinds [of "''rename''" "''r1''" "''p''" "[]" "[]" 1000 10 Map.empty
        "FileHandler 1000 10 Map.empty"]
      r
    by simp
qed

section \<open>The lock and the duration of a dispatch\<close>

text \<open>
  Between two tasks of the event loop the lock holds no path the \<open>fs\<close> module accepts:
  whatever a task locks and dispatches is unlocked by a microtask queued in the same
  task, before any \<open>fs\<close> callback can run.
\<close>

lemma locked_between_tasks:
  assumes "run evs (FileHandler m t fs0) = Some s" and "microtasks s = []"
    and "path \<in> lock s"
  shows "\<not> fs_accepts path"
proof -
  have "invariant s"
    using FileHandler_invariant assms(1) by (rule run_invariant)
  with assms(2,3) show ?thesis
    by (auto simp: invariant_def lock_queued_def)
qed

text \<open>
  A path the \<open>fs\<close> module refuses stays locked: nothing is started, nothing is queued to
  unlock it, and the rejection of the private function is handled by nobody.
\<close>

lemma refused_path_stays_locked:
  "map_option (\<lambda>s. (lock s, inflight s, microtasks s, uncaught s))
     (run [Call_write [CHR 0x00] ''x'' ''w1''] (FileHandler_default Map.empty))
   = Some ({[CHR 0x00]}, [], [], [InvalidArgValue])"
  by (simp add: model_defs)

text \<open>
  C1. The claim asks that the lock of a path is held until the \<open>fs\<close> call completes.
  The example of the README, a write and a read of the same file issued one after the
  other on a default handler: the read finds the path locked and is retried by a timer;
  the microtask of the write unlocks the path although \<open>fs.writeFile\<close> has not called
  back; the timer fires and \<open>fs.readFile\<close> is started on the same path. Both calls are
  then in flight at once, and the lock is empty.
\<close>

theorem lock_released_before_completion:
  "map_option (\<lambda>s. (lock s, microtasks s, map (\<lambda>(f, ord). (f, order_path ord)) (inflight s)))
     (run [Call_write ''test.txt'' ''hello World'' ''w1'', Call_read ''test.txt'' ''r1'',
           Microtask, Timer 0 ''x'', Microtask]
        (FileHandler_default Map.empty))
   = Some ({}, [], [(writeFilePrivate, ''test.txt''), (readFilePrivate, ''test.txt'')])"
  by (simp add: model_defs)

section \<open>The configuration\<close>

text \<open>
  C9. Without arguments the listener ceiling is 1000, but the retry delay 10 is never
  stored: the field \<open>timeout\<close> stays undefined, and the timers of a retry after lock
  contention and of a retry after a refused admission are created with that undefined
  delay, which the host turns into 1 millisecond, also when another delay (50) is passed
  to the constructor.
\<close>

theorem retry_delay_not_configured:
  "maxListeners (FileHandler_default fs0) = 1000
   \<and> timeout (FileHandler_default fs0) = None
   \<and> map_option (\<lambda>s. map (\<lambda>(d, cb). (d, setTimeout_delay d)) (timers s))
        (run [Call_write ''p'' ''a'' ''w1'', Call_read ''p'' ''r1'']
           (FileHandler_default Map.empty)) = Some [(None, 1)]
   \<and> map_option (\<lambda>s. map (\<lambda>(d, cb). (d, setTimeout_delay d)) (timers s))
        (run [Call_read ''a'' ''r1'', Call_read ''b'' ''r2'']
           (FileHandler 1 50 Map.empty)) = Some [(None, 1)]"
  by (simp add: model_defs setTimeout_delay_def)

section \<open>Admission\<close>

text \<open>
  C3. With a ceiling of one, two writes issued one after the other are both admitted and
  both in flight, and no retry is scheduled: nothing registers a listener for \<open>'write'\<close>,
  so the count compared with the ceiling is always zero. With a ceiling of zero an append
  takes the retry branch; when the timer fires it submits a read of the path, not the
  append, and then throws a \<open>ReferenceError\<close> for the undeclared \<open>resolve\<close>: no append
  order exists in the registry, among the calls in flight or among the timers.
\<close>

theorem admission_not_per_kind_retry:
  "map_option (\<lambda>s. (map (\<lambda>(f, ord). (f, order_path ord)) (inflight s), timers s))
     (run [Call_write ''a'' ''x'' ''w1'', Call_write ''b'' ''y'' ''w2'']
        (FileHandler 1 10 Map.empty))
   = Some ([(writeFilePrivate, ''a''), (writeFilePrivate, ''b'')], [])
   \<and> map_option (\<lambda>s. (orderStack s, inflight s, timers s, uncaught s))
     (run [Call_append ''p'' ''c'' ''a1'', Timer 0 ''x''] (FileHandler 0 10 Map.empty))
   = Some ([], [], [(None, Retry_read ''p'' 0)], [ReferenceError ''resolve''])"
  by (simp add: model_defs)

section \<open>Create, delete and the round trip\<close>

text \<open>
  A write followed, after its completion, by a read of the same path settles the read
  with the written content, on a path the \<open>fs\<close> module accepts.
\<close>

lemma write_then_read:
  assumes "m \<noteq> 0" and "fs_accepts path"
  shows "map_option (\<lambda>s. (files s path, settled s 0))
     (run [Call_write path content w, Microtask, Completion 0 None,
           Call_read path r, Microtask, Completion 0 None] (FileHandler m t fs0))
   = Some (Some content, Some (Inr content))"
  using assms by (simp add: model_defs)

text \<open>
  C4. The second half of the claim, a create followed by a read: \<open>create\<close> has the single
  parameter \<open>path\<close> (a content passed by the caller is dropped) and reads the undeclared
  name \<open>content\<close>, so it is rejected with a \<open>ReferenceError\<close> and writes nothing; on an
  empty file system the read that follows fails with \<open>ENOENT\<close> and its promise stays
  pending instead of returning the content.
\<close>

theorem create_then_read_fails:
  "fst (create ''a.txt'' ''c1'' (FileHandler_default Map.empty)) = Inl (ReferenceError ''content'')
   \<and> map_option (\<lambda>s. (files s ''a.txt'', settled s 0, uncaught s))
        (run [Call_create ''a.txt'' ''c1'', Call_read ''a.txt'' ''r1'', Microtask, Completion 0 None]
           (FileHandler_default Map.empty))
      = Some (None, None, [IOError ''ENOENT''])"
  by (simp add: model_defs)

text \<open>
  C5. On a default handler \<open>create\<close> and \<open>delete\<close> are rejected with a \<open>ReferenceError\<close>
  for every path, which is no I/O error, and leave the state as it was: no order is
  queued and no \<open>fs\<close> call is started, so no completion follows.
\<close>

theorem create_delete_reference_error:
  "create path rnd (FileHandler_default fs0)
     = (Inl (ReferenceError ''content''), FileHandler_default fs0)
   \<and> delete_file path rnd (FileHandler_default fs0)
     = (Inl (ReferenceError ''content''), FileHandler_default fs0)"
  by (simp add: model_defs)

section \<open>A dispatch attempt\<close>

text \<open>
  A blocked attempt changes the registry: the read of a path that a write has just
  locked is taken out of the registry by the attempt.
\<close>

theorem blocked_attempt_counterexample:
  "order_path \<lparr>order_path = ''p'', order_type = ''read'', order_data = [], order_id = ''r1''\<rparr>
     \<in> lock (snd (write_file ''p'' ''hello'' ''w1'' (FileHandler_default Map.empty)))
   \<and> orderStack (executeOrder ''r1''
        ((snd (write_file ''p'' ''hello'' ''w1'' (FileHandler_default Map.empty)))
           \<lparr>orderStack :=
              [\<lparr>order_path = ''p'', order_type = ''read'', order_data = [], order_id = ''r1''\<rparr>]\<rparr>))
     \<noteq> [\<lparr>order_path = ''p'', order_type = ''read'', order_data = [], order_id = ''r1''\<rparr>]"
  by (simp add: model_defs)

text \<open>
  C8, as amended. A dispatch attempt first checks without removing that an order with
  the id is in the registry; if none is, the attempt changes nothing. Otherwise it takes
  the order out of the registry, whether the path of the order is locked or free (the
  first order with that id is removed). When the path of the order is locked, the attempt
  leaves the registry without the order and schedules a retry; the callback of the retry
  pushes the order back at the end of the registry and attempts again.
\<close>

theorem executeOrder_attempt:
  "(find (\<lambda>ord. order_id ord = i) (getStack (orderStack s)) = None \<longrightarrow> executeOrder i s = s)
   \<and> (find (\<lambda>ord. order_id ord = i) (getStack (orderStack s)) = Some ord \<longrightarrow>
        orderStack (executeOrder i s) = remove1 ord (orderStack s))
   \<and> (find (\<lambda>ord. order_id ord = i) (getStack (orderStack s)) = Some ord
        \<and> order_path ord \<in> lock s \<longrightarrow>
        executeOrder i s
          = s\<lparr>orderStack := remove1 ord (orderStack s),
              timers := timers s @ [(timeout s, Retry_execute ord i)]\<rparr>
        \<and> run_callback (Retry_execute ord i) rnd s'
          = executeOrder i (s'\<lparr>orderStack := orderStack s' @ [ord]\<rparr>))"
  by (simp add: executeOrder_eq getStack_def run_callback_def push_def emit_frame
        split: option.splits)

theorem executeOrder_attempt_witness:
  "find (\<lambda>ord. order_id ord = ''zz'') (getStack (orderStack (FileHandler_default Map.empty))) = None
   \<and> executeOrder ''zz'' (FileHandler_default Map.empty) = FileHandler_default Map.empty
   \<and> find (\<lambda>ord. order_id ord = ''r1'')
        (getStack [\<lparr>order_path = ''p'', order_type = ''read'', order_data = [], order_id = ''r1''\<rparr>])
      = Some \<lparr>order_path = ''p'', order_type = ''read'', order_data = [], order_id = ''r1''\<rparr>
   \<and> ''p'' \<notin> lock (FileHandler_default Map.empty)
   \<and> orderStack (executeOrder ''r1''
        ((FileHandler_default Map.empty)
           \<lparr>orderStack :=
              [\<lparr>order_path = ''p'', order_type = ''read'', order_data = [], order_id = ''r1''\<rparr>]\<rparr>))
      = []
   \<and> ''p'' \<in> lock (snd (write_file ''p'' ''hello'' ''w1'' (FileHandler_default Map.empty)))
   \<and> orderStack (executeOrder ''r1''
        ((snd (write_file ''p'' ''hello'' ''w1'' (FileHandler_default Map.empty)))
           \<lparr>orderStack :=
              [\<lparr>order_path = ''p'', order_type = ''read'', order_data = [], order_id = ''r1''\<rparr>]\<rparr>))
      = []
   \<and> map snd (timers (executeOrder ''r1''
        ((snd (write_file ''p'' ''hello'' ''w1'' (FileHandler_default Map.empty)))
           \<lparr>orderStack :=
              [\<lparr>order_path = ''p'', order_type = ''read'', order_data = [], order_id = ''r1''\<rparr>]\<rparr>)))
      = [Retry_execute
           \<lparr>order_path = ''p'', order_type = ''read'', order_data = [], order_id = ''r1''\<rparr> ''r1'']"
proof -
  let ?r = "\<lparr>order_path = ''p'', order_type = ''read'', order_data = [], order_id = ''r1''\<rparr>"
  let ?s = "(snd (write_file ''p'' ''hello'' ''w1'' (FileHandler_default Map.empty)))
              \<lparr>orderStack := [?r]\<rparr>"
  let ?f = "(FileHandler_default Map.empty)\<lparr>orderStack := [?r]\<rparr>"
  have a: "find (\<lambda>ord. order_id ord = ''zz'')
      (getStack (orderStack (FileHandler_default Map.empty))) = None"
    by (simp add: model_defs)
  have b: "find (\<lambda>ord. order_id ord = ''r1'') (getStack (orderStack ?s)) = Some ?r"
    "find (\<lambda>ord. order_id ord = ''r1'') (getStack (orderStack ?f)) = Some ?r"
    by (simp_all add: getStack_def)
  have c: "order_path ?r \<in> lock ?s" "order_path ?r \<notin> lock ?f"
    by (simp_all add: model_defs)
  have d: "timers ?s = []" "remove1 ?r [?r] = []"
    by (simp_all add: model_defs)
  show ?thesis
    using a b c d
      executeOrder_attempt [of "''zz''" "FileHandler_default Map.empty"]
      executeOrder_attempt [of "''r1''" ?s ?r]
      executeOrder_attempt [of "''r1''" ?f ?r]
    by (simp add: getStack_def)
qed

section \<open>Listeners and outcomes are kept\<close>

lemma extends_refl: "extends s s"
  by (simp add: extends_def)

lemma extends_trans: "extends s s' \<Longrightarrow> extends s' s'' \<Longrightarrow> extends s s''"
  by (auto simp: extends_def)

lemma extends_same:
  assumes "listeners s' = listeners s" and "maxListeners s' = maxListeners s"
    and "timeout s' = timeout s" and "settled s' = settled s"
  shows "extends s s'"
  using assms by (simp add: extends_def)

lemma notify_Failure: "fold (\<lambda>l. call_listener l (Failure e)) ls s = s"
  by (induction ls) (simp_all add: call_listener_def split: listener.splits)

lemma notify_Unknown_type: "fold (\<lambda>l. call_listener l (Unknown_type ord)) ls s = s"
  by (induction ls) (simp_all add: call_listener_def split: listener.splits)

lemma emit_Unknown_type:
  "settled (emit ev (Unknown_type ord) s) = settled s"
  "microtasks (emit ev (Unknown_type ord) s) = microtasks s"
  by (simp_all add: emit_def Let_def notify_Unknown_type)

lemma emit_Failure:
  "settled (emit ev (Failure e) s) = settled s"
  "microtasks (emit ev (Failure e) s) = microtasks s"
  by (simp_all add: emit_def Let_def notify_Failure)

lemma executeOrder_settled:
  "settled (executeOrder i s) = settled s"
  "forwards (microtasks (executeOrder i s)) = forwards (microtasks s)"
  by (simp_all add: executeOrder_eq emit_Unknown_type forwards_append split: option.splits)

lemma orderExecution_settled:
  "settled (orderExecution ord s) = settled s"
  "forwards (microtasks (orderExecution ord s)) = forwards (microtasks s)"
  by (simp_all add: orderExecution_def executeOrder_settled)

lemma settle_extends: "extends s (settle p r s)"
  by (simp add: extends_def settle_frame settle_settled)

lemma call_listener_extends: "extends s (call_listener l d s)"
  by (simp add: call_listener_def settle_extends extends_refl
        split: listener.splits payload.splits)

lemma notify_extends: "extends s (fold (\<lambda>l. call_listener l d) ls s)"
proof (induction ls arbitrary: s)
  case Nil
  then show ?case by (simp add: extends_refl)
next
  case (Cons l ls)
  have "extends s (call_listener l d s)"
    by (rule call_listener_extends)
  moreover have "extends (call_listener l d s)
      (fold (\<lambda>l. call_listener l d) ls (call_listener l d s))"
    by (rule Cons.IH)
  ultimately show ?case
    by (simp add: extends_trans)
qed

lemma emit_extends: "extends s (emit ev d s)"
proof -
  have "extends s (s\<lparr>emitted := emitted s @ [(ev, d)]\<rparr>)"
    by (simp add: extends_def)
  moreover have "extends (s\<lparr>emitted := emitted s @ [(ev, d)]\<rparr>)
      (fold (\<lambda>l. call_listener l d) ls (s\<lparr>emitted := emitted s @ [(ev, d)]\<rparr>))" for ls
    by (rule notify_extends)
  ultimately have "extends s (fold (\<lambda>l. call_listener l d) ls (s\<lparr>emitted := emitted s @ [(ev, d)]\<rparr>))" for ls
    by (rule extends_trans)
  moreover have "extends s (s\<lparr>emitted := emitted s @ [(ev, d)], uncaught := u\<rparr>)" for u
    by (simp add: extends_def)
  ultimately show ?thesis
    by (auto simp: emit_def Let_def)
qed

lemma executeOrder_extends: "extends s (executeOrder i s)"
  by (rule extends_same) (simp_all add: executeOrder_frame executeOrder_settled)

lemma orderExecution_extends: "extends s (orderExecution ord s)"
  by (rule extends_same) (simp_all add: orderExecution_frame orderExecution_settled)

lemma read_listeners:
  "listeners (snd (read path rnd s)) =
     (if listenerCount ''read'' s = maxListeners s then listeners s
      else listeners s @ [(''read'', Read_listener rnd (nextPromise s))])"
  by (simp add: read_def Let_def new_Order_def orderExecution_frame listenerCount_def)

lemma read_frame:
  "maxListeners (snd (read path rnd s)) = maxListeners s"
  "timeout (snd (read path rnd s)) = timeout s"
  "settled (snd (read path rnd s)) = settled s"
  "thens (snd (read path rnd s)) = thens s"
  "forwards (microtasks (snd (read path rnd s))) = forwards (microtasks s)"
  by (simp_all add: read_def Let_def new_Order_def orderExecution_frame orderExecution_settled)

lemma read_extends: "extends s (snd (read path rnd s))"
  by (simp add: extends_def read_listeners read_frame)

lemma write_file_extends: "extends s (snd (write_file path content rnd s))"
  by (rule extends_same)
    (simp_all add: write_file_def new_Order_def orderExecution_frame orderExecution_settled)

lemma append_file_extends: "extends s (snd (append_file path content rnd s))"
  by (rule extends_same)
    (simp_all add: append_file_def new_Order_def orderExecution_frame orderExecution_settled)

lemma create_extends: "extends s (snd (create path rnd s))"
  by (rule extends_same) (simp_all add: create_def)

lemma delete_file_extends: "extends s (snd (delete_file path rnd s))"
  by (rule extends_same) (simp_all add: delete_file_def)

lemma chain_extends: "extends s (chain p outer s)"
  by (rule extends_same) (simp_all add: chain_def split: option.splits)

lemma run_callback_extends:
  assumes "listeners s0 = listeners s" and "maxListeners s0 = maxListeners s"
    and "timeout s0 = timeout s" and "settled s0 = settled s"
  shows "extends s (run_callback cb rnd s0)"
proof -
  have base: "extends s s0"
    using assms by (rule extends_same)
  have "extends s0 (run_callback cb rnd s0)"
  proof (cases cb)
    case (Retry_read path outer)
    have "extends s0 (snd (read path rnd s0))"
      by (rule read_extends)
    moreover have "extends (snd (read path rnd s0))
        (chain (fst (read path rnd s0)) outer (snd (read path rnd s0)))"
      by (rule chain_extends)
    ultimately show ?thesis
      using Retry_read by (simp add: run_callback_def split_beta extends_trans)
  next
    case (Retry_as_read scope logs)
    then show ?thesis
      by (auto simp: run_callback_def split_beta Let_def extends_def read_listeners read_frame
            listenerCount_def split: sum.splits)
  next
    case (Retry_execute ord i)
    have "extends s0 (s0\<lparr>orderStack := push ord (orderStack s0)\<rparr>)"
      by (simp add: extends_def)
    then show ?thesis
      using Retry_execute executeOrder_extends extends_trans
      by (simp add: run_callback_def)
  qed
  with base show ?thesis
    by (rule extends_trans)
qed

lemma run_microtask_extends:
  "extends s (run_microtask m (s\<lparr>microtasks := ms\<rparr>))"
proof -
  have a: "extends s (s\<lparr>microtasks := ms\<rparr>)"
    by (simp add: extends_def)
  have "extends (s\<lparr>microtasks := ms\<rparr>) (run_microtask m (s\<lparr>microtasks := ms\<rparr>))"
  proof (cases m)
    case (Unlock path)
    then show ?thesis by (simp add: run_microtask_def extends_def)
  next
    case (Forward outer r)
    then show ?thesis by (simp add: run_microtask_def settle_extends)
  qed
  with a show ?thesis
    by (rule extends_trans)
qed

lemma fs_callback_extends: "extends s (fs_callback f ord res s)"
  by (simp add: fs_callback_def emit_extends split: sum.splits dispatch.splits)

lemma step_extends:
  assumes "step ev s = Some s'"
  shows "extends s s'"
proof (cases ev)
  case (Call_read path rnd)
  with assms show ?thesis by (auto simp: step_def read_extends)
next
  case (Call_write path content rnd)
  with assms show ?thesis by (auto simp: step_def write_file_extends)
next
  case (Call_create path rnd)
  with assms show ?thesis by (auto simp: step_def create_extends)
next
  case (Call_delete path rnd)
  with assms show ?thesis by (auto simp: step_def delete_file_extends)
next
  case (Call_append path content rnd)
  with assms show ?thesis by (auto simp: step_def append_file_extends)
next
  case Microtask
  with assms show ?thesis
    by (auto simp: step_def run_microtask_extends split: list.splits)
next
  case (Timer k rnd)
  with assms show ?thesis
    by (auto simp: step_def split: if_splits intro!: run_callback_extends)
next
  case (Completion k fault)
  have "extends s (s\<lparr>inflight := a, files := b\<rparr>)" for a b
    by (simp add: extends_def)
  moreover have "extends (s\<lparr>inflight := a, files := b\<rparr>)
      (fs_callback f ord res (s\<lparr>inflight := a, files := b\<rparr>))" for a b f ord res
    by (rule fs_callback_extends)
  ultimately have "extends s (fs_callback f ord res (s\<lparr>inflight := a, files := b\<rparr>))"
    for a b f ord res
    by (rule extends_trans)
  with assms Completion show ?thesis
    by (auto simp: step_def split: if_splits prod.splits)
qed

lemma run_extends:
  "run evs s = Some s' \<Longrightarrow> extends s s'"
proof (induction evs arbitrary: s)
  case Nil
  then show ?case by (simp add: extends_refl)
next
  case (Cons ev evs)
  then show ?case
    by (auto split: option.splits dest: step_extends intro: extends_trans)
qed

text \<open>
  The field \<open>timeout\<close> is undefined in every state of every run, and only \<open>'read'\<close> has
  listeners: the counts that \<open>write\<close>, \<open>create\<close>, \<open>delete\<close> and \<open>append\<close> compare with the
  ceiling are zero throughout.
\<close>

lemma timeout_never_assigned:
  assumes "run evs (FileHandler m t fs0) = Some s"
  shows "timeout s = None \<and> maxListeners s = m"
proof -
  have "extends (FileHandler m t fs0) s"
    using assms by (rule run_extends)
  then show ?thesis
    by (simp add: extends_def FileHandler_def)
qed

lemma other_kinds_never_counted:
  assumes "run evs (FileHandler m t fs0) = Some s" and "ev \<noteq> ''read''"
  shows "listenerCount ev s = 0"
proof -
  have "invariant s"
    using FileHandler_invariant assms(1) by (rule run_invariant)
  with assms(2) show ?thesis
    by (auto simp: invariant_def read_listeners_only_def listenerCount_def list_all_iff
          filter_empty_conv)
qed

lemma create_delete_always_rejected:
  assumes "run evs (FileHandler m t fs0) = Some s" and "m \<noteq> 0"
  shows "create path rnd s = (Inl (ReferenceError ''content''), s)"
    and "delete_file path rnd s = (Inl (ReferenceError ''content''), s)"
proof -
  have "listenerCount ''create'' s = 0" "listenerCount ''delete'' s = 0"
    using assms(1) by (simp_all add: other_kinds_never_counted)
  moreover have "maxListeners s = m"
    using assms(1) by (simp add: timeout_never_assigned)
  ultimately show "create path rnd s = (Inl (ReferenceError ''content''), s)"
    and "delete_file path rnd s = (Inl (ReferenceError ''content''), s)"
    using assms(2) by (simp_all add: create_def delete_file_def)
qed

section \<open>Promises out of reach at the ceiling\<close>

lemma starved_same:
  assumes "listeners s' = listeners s" and "maxListeners s' = maxListeners s"
    and "forwards (microtasks s') = forwards (microtasks s)" and "thens s' = thens s"
    and "settled s' = settled s" and "nextPromise s' = nextPromise s"
  shows "starved n s' = starved n s"
  using assms by (simp add: starved_def listenerCount_def)

lemma settle_starved:
  assumes "starved n s" and "p < n"
  shows "starved n (settle p r s)"
proof -
  have "set (forwards (microtasks (settle p r s)))
          \<subseteq> set (forwards (microtasks s)) \<union> snd ` {io \<in> set (thens s). fst io = p}"
    by (auto simp: settle_def forwards_append forwards_map_Forward split: option.splits)
  with assms show ?thesis
    unfolding starved_def
    by (simp add: settle_frame settle_settled list_all_iff listenerCount_def) fastforce
qed

lemma call_listener_starved:
  assumes "starved n s" and "promise_of (ev, l) < n"
  shows "starved n (call_listener l d s)"
  using assms
  by (cases l; cases d) (simp_all add: call_listener_def settle_starved)

lemma notify_starved:
  assumes "starved n s" and "list_all (\<lambda>x. promise_of (ev, x) < n) ls"
  shows "starved n (fold (\<lambda>l. call_listener l d) ls s)"
  using assms
proof (induction ls arbitrary: s)
  case Nil
  then show ?case by simp
next
  case (Cons l ls)
  have "starved n (call_listener l d s)"
    using Cons.prems call_listener_starved [of n s ev l d] by simp
  then show ?case
    using Cons.prems by (simp add: Cons.IH)
qed

lemma emit_starved:
  assumes "starved n s"
  shows "starved n (emit ev d s)"
proof -
  let ?s1 = "s\<lparr>emitted := emitted s @ [(ev, d)]\<rparr>"
  have s1: "starved n ?s1"
    using assms by (simp add: starved_def listenerCount_def)
  have s2: "starved n (?s1\<lparr>uncaught := u\<rparr>)" for u
    using assms by (simp add: starved_def listenerCount_def)
  have "list_all (\<lambda>x. promise_of (ev, x) < n)
          (map snd (filter (\<lambda>(n, l). n = ev) (listeners s)))"
    using assms by (auto simp: starved_def list_all_iff)
  with s1 have "starved n (fold (\<lambda>l. call_listener l d)
                (map snd (filter (\<lambda>(n, l). n = ev) (listeners s))) ?s1)"
    by (rule notify_starved)
  with s2 show ?thesis
    by (auto simp: emit_def Let_def)
qed

lemma executeOrder_starved: "starved n (executeOrder i s) = starved n s"
  by (rule starved_same) (simp_all add: executeOrder_frame executeOrder_settled)

lemma orderExecution_starved: "starved n (orderExecution ord s) = starved n s"
  by (rule starved_same) (simp_all add: orderExecution_frame orderExecution_settled)

lemma read_at_ceiling:
  assumes "listenerCount ''read'' s = maxListeners s"
  shows "read path rnd s =
     (nextPromise s,
      s\<lparr>nextPromise := Suc (nextPromise s),
        timers := timers s @ [(timeout s, Retry_read path (nextPromise s))]\<rparr>)"
  using assms by (simp add: read_def Let_def listenerCount_def)

lemma read_starved:
  assumes "starved n s"
  shows "starved n (snd (read path rnd s))"
proof -
  have "listenerCount ''read'' s = maxListeners s"
    using assms by (simp add: starved_def)
  then show ?thesis
    using assms by (simp add: read_at_ceiling starved_def listenerCount_def)
qed

lemma write_file_starved: "starved n (snd (write_file path content rnd s)) = starved n s"
  by (rule starved_same)
    (simp_all add: write_file_def new_Order_def orderExecution_frame orderExecution_settled)

lemma append_file_starved: "starved n (snd (append_file path content rnd s)) = starved n s"
  by (rule starved_same)
    (simp_all add: append_file_def new_Order_def orderExecution_frame orderExecution_settled)

lemma create_starved: "starved n (snd (create path rnd s)) = starved n s"
  by (rule starved_same) (simp_all add: create_def)

lemma delete_file_starved: "starved n (snd (delete_file path rnd s)) = starved n s"
  by (rule starved_same) (simp_all add: delete_file_def)

lemma chain_starved:
  assumes "starved n s" and "n \<le> p"
  shows "starved n (chain p outer s)"
  using assms by (simp add: chain_def starved_def listenerCount_def)

lemma run_callback_starved:
  assumes "starved n s"
  shows "starved n (run_callback cb rnd s)"
proof (cases cb)
  case (Retry_read path outer)
  have "starved n (snd (read path rnd s))"
    using assms by (rule read_starved)
  moreover have "n \<le> fst (read path rnd s)"
    using assms by (simp add: read_promise starved_def)
  ultimately have "starved n (chain (fst (read path rnd s)) outer (snd (read path rnd s)))"
    by (rule chain_starved)
  then show ?thesis
    using Retry_read by (simp add: run_callback_def split_beta)
next
  case (Retry_as_read scope logs)
  have c: "starved n (s\<lparr>console := c\<rparr>)" for c
    using assms by (simp add: starved_def listenerCount_def)
  have u: "starved n (s1\<lparr>uncaught := u\<rparr>) = starved n s1" for s1 u
    by (simp add: starved_def listenerCount_def)
  have "starved n (snd (read path rnd (s\<lparr>console := c\<rparr>)))" for path c
    using c by (rule read_starved)
  moreover have "starved n (snd (read path rnd s))" for path
    using assms by (rule read_starved)
  ultimately show ?thesis
    using Retry_as_read assms c
    by (simp add: run_callback_def split_beta Let_def u split: sum.splits)
next
  case (Retry_execute ord i)
  have "starved n (s\<lparr>orderStack := push ord (orderStack s)\<rparr>)"
    using assms by (simp add: starved_def listenerCount_def)
  then show ?thesis
    using Retry_execute by (simp add: run_callback_def executeOrder_starved)
qed

lemma run_microtask_starved:
  assumes "starved n s" and "microtasks s = m # ms"
  shows "starved n (run_microtask m (s\<lparr>microtasks := ms\<rparr>))"
proof (cases m)
  case (Unlock path)
  with assms show ?thesis
    by (simp add: run_microtask_def starved_def listenerCount_def)
next
  case (Forward outer r)
  with assms have "starved n (s\<lparr>microtasks := ms\<rparr>)" and "outer < n"
    by (simp_all add: starved_def listenerCount_def)
  then show ?thesis
    using Forward by (simp add: run_microtask_def settle_starved)
qed

lemma fs_callback_starved:
  assumes "starved n s"
  shows "starved n (fs_callback f ord res s)"
  using assms
  by (simp add: fs_callback_def emit_starved split: sum.splits dispatch.splits)

lemma step_starved:
  assumes "starved n s" and "step ev s = Some s'"
  shows "starved n s'"
proof (cases ev)
  case (Call_read path rnd)
  with assms show ?thesis by (auto simp: step_def read_starved)
next
  case (Call_write path content rnd)
  with assms show ?thesis by (auto simp: step_def write_file_starved)
next
  case (Call_create path rnd)
  with assms show ?thesis by (auto simp: step_def create_starved)
next
  case (Call_delete path rnd)
  with assms show ?thesis by (auto simp: step_def delete_file_starved)
next
  case (Call_append path content rnd)
  with assms show ?thesis by (auto simp: step_def append_file_starved)
next
  case Microtask
  with assms show ?thesis
    by (auto simp: step_def run_microtask_starved split: list.splits)
next
  case (Timer k rnd)
  have "starved n (s\<lparr>timers := ts\<rparr>)" for ts
    using assms(1) by (simp add: starved_def listenerCount_def)
  with assms Timer show ?thesis
    by (auto simp: step_def run_callback_starved split: if_splits)
next
  case (Completion k fault)
  have "starved n (s\<lparr>inflight := a, files := b\<rparr>)" for a b
    using assms(1) by (simp add: starved_def listenerCount_def)
  with assms Completion show ?thesis
    by (auto simp: step_def fs_callback_starved split: if_splits prod.splits)
qed

lemma run_starved:
  "starved n s \<Longrightarrow> run evs s = Some s' \<Longrightarrow> starved n s'"
proof (induction evs arbitrary: s)
  case Nil
  then show ?case by simp
next
  case (Cons ev evs)
  then show ?case
    by (auto split: option.splits dest: step_starved)
qed

lemma invariant_starved:
  assumes "invariant s" and "listenerCount ''read'' s = maxListeners s"
  shows "starved (nextPromise s) s"
  using assms
  by (auto simp: invariant_def numbered_def starved_def list_all_iff)

section \<open>What a listener is told\<close>

lemma notify_settled:
  "settled (fold (\<lambda>l. call_listener l (Content ord c)) ls s) p =
     (if settled s p = None \<and> Read_listener (order_id ord) p \<in> set ls
      then Some (Inr c) else settled s p)"
proof (induction ls arbitrary: s)
  case Nil
  then show ?case by simp
next
  case (Cons l ls)
  obtain i q where l: "l = Read_listener i q"
    by (cases l)
  have "call_listener l (Content ord c) s
      = (if order_id ord = i then settle q (Inr c) s else s)"
    by (simp add: l call_listener_def)
  then show ?case
    by (auto simp: Cons.IH l settle_settled)
qed

lemma emit_read_settled:
  "settled (emit ''read'' (Content ord c) s) p =
     (if settled s p = None \<and> (''read'', Read_listener (order_id ord) p) \<in> set (listeners s)
      then Some (Inr c) else settled s p)"
  by (force simp: emit_def Let_def notify_settled)

section \<open>A failing call of the file system\<close>




section \<open>Subscriptions\<close>

text \<open>
  A successful read notifies the caller subscribed on the id of the order: when the
  \<open>fs\<close> call of a read order completes on an existing file, a pending promise with a
  listener for that id is fulfilled with the content of the file, and the listeners stay
  as they were.
\<close>

lemma read_completion_notifies:
  assumes "step (Completion k None) s = Some s'"
    and "inflight s ! k = (readFilePrivate, ord)"
    and "files s (order_path ord) = Some c"
    and "(''read'', Read_listener (order_id ord) p) \<in> set (listeners s)"
    and "settled s p = None"
  shows "settled s' p = Some (Inr c) \<and> listeners s' = listeners s"
  using assms
  by (auto simp: step_def fs_perform_def fs_callback_def emit_read_settled emit_frame
        split: if_splits)

text \<open>
  C6. The claim asks that the subscription of a call is removed from the bus by its
  notification. With a ceiling of one: a read of an existing file completes and its
  promise is fulfilled with the content, yet its listener is still registered, with no
  order queued and no call in flight. The count of listeners therefore still equals the
  ceiling, and a second read is refused admission: after two firings of its retry timer
  its promise is pending and the next retry is scheduled.
\<close>

theorem subscription_not_consumed:
  "map_option
     (\<lambda>s. (settled s 0, listeners s, orderStack s, inflight s, settled s 1, map snd (timers s)))
     (run [Call_read ''a.txt'' ''r1'', Microtask, Completion 0 None,
           Call_read ''a.txt'' ''r2'', Timer 0 ''r3'', Timer 0 ''r4'']
        (FileHandler 1 10 (Map.empty(''a.txt'' \<mapsto> ''hello''))))
   = Some (Some (Inr ''hello''), [(''read'', Read_listener ''r1'' 0)], [], [], None,
           [Retry_read ''a.txt'' 3])"
  by (simp add: model_defs)

section \<open>The leak of read listeners\<close>

text \<open>
  A call of \<open>read\<close> at the ceiling registers no listener: with a ceiling of one, two
  calls leave one listener, the one of the first call.
\<close>

theorem read_registers_counterexample:
  "map_option listeners
     (run [Call_read ''a.txt'' ''r1'', Call_read ''b.txt'' ''r2''] (FileHandler 1 10 Map.empty))
   = Some [(''read'', Read_listener ''r1'' 0)]"
  by (simp add: model_defs)

text \<open>
  C10, as amended. In every state a run reaches: a call of \<open>read\<close> that passes the
  admission check registers one new \<open>'read'\<close> listener; no event removes a listener, so
  the count of \<open>'read'\<close> listeners never decreases; and once the count equals the ceiling
  it equals the ceiling in every later state, every later call of \<open>read\<close> takes the retry
  branch (it only creates its promise and a timer), and the promise of such a call is
  pending in every state that follows, whatever happens.
\<close>

theorem read_listener_leak:
  assumes "run evs (FileHandler m t fs0) = Some s"
  shows "(listenerCount ''read'' s \<noteq> maxListeners s \<longrightarrow>
            listeners (snd (read path rnd s))
              = listeners s @ [(''read'', Read_listener rnd (nextPromise s))])
     \<and> (step ev s = Some s' \<longrightarrow>
          (\<exists>ls. listeners s' = listeners s @ ls)
          \<and> listenerCount ''read'' s \<le> listenerCount ''read'' s')
     \<and> (listenerCount ''read'' s = maxListeners s \<and> run evs1 s = Some s1 \<longrightarrow>
          listenerCount ''read'' s1 = maxListeners s1
          \<and> read path rnd s1
              = (nextPromise s1,
                 s1\<lparr>nextPromise := Suc (nextPromise s1),
                    timers := timers s1 @ [(timeout s1, Retry_read path (nextPromise s1))]\<rparr>)
          \<and> (run evs2 (snd (read path rnd s1)) = Some s2 \<longrightarrow>
               settled s2 (fst (read path rnd s1)) = None
               \<and> listenerCount ''read'' s2 = maxListeners s2))"
proof -
  have inv: "invariant s"
    using FileHandler_invariant assms by (rule run_invariant)
  have mono: "(\<exists>ls. listeners s' = listeners s @ ls)
      \<and> listenerCount ''read'' s \<le> listenerCount ''read'' s'" if "step ev s = Some s'"
  proof -
    have "extends s s'"
      using that by (rule step_extends)
    then show ?thesis
      by (auto simp: extends_def listenerCount_def)
  qed
  have ceiling: "listenerCount ''read'' s1 = maxListeners s1
      \<and> read path rnd s1
          = (nextPromise s1,
             s1\<lparr>nextPromise := Suc (nextPromise s1),
                timers := timers s1 @ [(timeout s1, Retry_read path (nextPromise s1))]\<rparr>)
      \<and> (run evs2 (snd (read path rnd s1)) = Some s2 \<longrightarrow>
           settled s2 (fst (read path rnd s1)) = None
           \<and> listenerCount ''read'' s2 = maxListeners s2)"
    if full: "listenerCount ''read'' s = maxListeners s" and r1: "run evs1 s = Some s1"
  proof -
    have "starved (nextPromise s) s"
      using inv full by (rule invariant_starved)
    then have "starved (nextPromise s) s1"
      using r1 by (rule run_starved)
    then have full1: "listenerCount ''read'' s1 = maxListeners s1"
      by (simp add: starved_def)
    have "invariant s1"
      using inv r1 by (rule run_invariant)
    then have "starved (nextPromise s1) s1"
      using full1 by (rule invariant_starved)
    then have st: "starved (nextPromise s1) (snd (read path rnd s1))"
      by (rule read_starved)
    have "settled s2 (fst (read path rnd s1)) = None
        \<and> listenerCount ''read'' s2 = maxListeners s2"
      if "run evs2 (snd (read path rnd s1)) = Some s2"
    proof -
      have "starved (nextPromise s1) s2"
        using st that by (rule run_starved)
      then show ?thesis
        by (simp add: starved_def read_promise)
    qed
    then show ?thesis
      using full1 by (simp add: read_at_ceiling)
  qed
  have first: "listenerCount ''read'' s \<noteq> maxListeners s \<longrightarrow>
      listeners (snd (read path rnd s))
        = listeners s @ [(''read'', Read_listener rnd (nextPromise s))]"
    by (simp add: read_listeners)
  from first mono ceiling show ?thesis
    by blast
qed

theorem read_listener_leak_witness:
  "listenerCount ''read'' (FileHandler 1 10 (Map.empty(''a.txt'' \<mapsto> ''hello'')))
     \<noteq> maxListeners (FileHandler 1 10 (Map.empty(''a.txt'' \<mapsto> ''hello'')))
   \<and> listeners (snd (read ''a.txt'' ''r1'' (FileHandler 1 10 (Map.empty(''a.txt'' \<mapsto> ''hello'')))))
       = [(''read'', Read_listener ''r1'' 0)]
   \<and> run [Call_read ''a.txt'' ''r1'', Microtask, Completion 0 None]
        (FileHandler 1 10 (Map.empty(''a.txt'' \<mapsto> ''hello''))) \<noteq> None
   \<and> listenerCount ''read''
        (the (run [Call_read ''a.txt'' ''r1'', Microtask, Completion 0 None]
          (FileHandler 1 10 (Map.empty(''a.txt'' \<mapsto> ''hello'')))))
      = maxListeners
        (the (run [Call_read ''a.txt'' ''r1'', Microtask, Completion 0 None]
          (FileHandler 1 10 (Map.empty(''a.txt'' \<mapsto> ''hello'')))))
   \<and> fst (read ''a.txt'' ''r2''
        (the (run [Call_read ''a.txt'' ''r1'', Microtask, Completion 0 None]
          (FileHandler 1 10 (Map.empty(''a.txt'' \<mapsto> ''hello'')))))) = 1
   \<and> run [Timer 0 ''r3'', Timer 0 ''r4'']
        (snd (read ''a.txt'' ''r2''
          (the (run [Call_read ''a.txt'' ''r1'', Microtask, Completion 0 None]
            (FileHandler 1 10 (Map.empty(''a.txt'' \<mapsto> ''hello''))))))) \<noteq> None
   \<and> settled (the (run [Timer 0 ''r3'', Timer 0 ''r4'']
        (snd (read ''a.txt'' ''r2''
          (the (run [Call_read ''a.txt'' ''r1'', Microtask, Completion 0 None]
            (FileHandler 1 10 (Map.empty(''a.txt'' \<mapsto> ''hello'')))))))))
        1 = None"
proof -
  let ?init = "FileHandler 1 10 (Map.empty(''a.txt'' \<mapsto> ''hello''))"
  let ?evs = "[Call_read ''a.txt'' ''r1'', Microtask, Completion 0 None]"
  let ?s = "the (run ?evs ?init)"
  let ?evs2 = "[Timer 0 ''r3'', Timer 0 ''r4'']"
  let ?s2 = "the (run ?evs2 (snd (read ''a.txt'' ''r2'' ?s)))"
  have r0: "run [] ?init = Some ?init"
    by simp
  have r: "run ?evs ?init = Some ?s"
    by (simp add: model_defs)
  show ?thesis
    using read_listener_leak [OF r0, of "''a.txt''" "''r1''" "Call_read ''a.txt'' ''r1''"
        "snd (read ''a.txt'' ''r1'' ?init)" "[]" ?init "[]" ?init]
      read_listener_leak [OF r, of "''a.txt''" "''r2''" Microtask ?s "[]" ?s ?evs2 ?s2]
    by (simp add: model_defs)
qed

end
